theory Spec2Isabelle
  imports Main "HOL-Library.Sublist" "HOL-Library.Word"
begin


section \<open>Locale trees\<close>

text \<open>
  The scripts work on the values that \<^verbatim>\<open>json.load\<close> returns: \<^verbatim>\<open>None\<close>, booleans, integers,
  floats, strings, lists and dictionaries. A float is carried as its 64-bit pattern; the scripts never
  compute with numbers, they only test \<^verbatim>\<open>isinstance\<close> against \<^verbatim>\<open>str\<close>, \<^verbatim>\<open>list\<close> and \<^verbatim>\<open>dict\<close>.
  A string is a list of characters, each standing for one code point (the first 256 of them).
  A dictionary is the list of its items in insertion order; Python keeps the keys of a dictionary
  distinct, which is the predicate \<open>wf_json\<close> below.
\<close>

datatype json =
    JNull
  | JBool bool
  | JInt int
  | JFloat "64 word"
  | JStr string
  | JList "json list"
  | JDict "(string \<times> json) list"

fun wf_json :: "json \<Rightarrow> bool"
  and wf_items :: "(string \<times> json) list \<Rightarrow> bool"
  and wf_elems :: "json list \<Rightarrow> bool" where
  "wf_json (JDict kvs) = (distinct (map fst kvs) \<and> wf_items kvs)"
| "wf_json (JList xs) = wf_elems xs"
| "wf_json JNull = True"
| "wf_json (JBool b) = True"
| "wf_json (JInt n) = True"
| "wf_json (JFloat w) = True"
| "wf_json (JStr s) = True"
| "wf_items [] = True"
| "wf_items ((k, v) # rest) = (wf_json v \<and> wf_items rest)"
| "wf_elems [] = True"
| "wf_elems (x # rest) = (wf_json x \<and> wf_elems rest)"

text \<open>\<^verbatim>\<open>isinstance(value, (dict, list))\<close>\<close>

fun is_container :: "json \<Rightarrow> bool" where
  "is_container (JDict kvs) = True"
| "is_container (JList xs) = True"
| "is_container v = False"

text \<open>The decimal numeral that an f-string prints for a list index.\<close>

definition digit :: "nat \<Rightarrow> char" where
  "digit d = ''0123456789'' ! d"

fun dec :: "nat \<Rightarrow> string" where
  "dec n = (if n < 10 then [digit n] else dec (n div 10) @ [digit (n mod 10)])"

declare dec.simps [simp del]

section \<open>verify\_i18n\_sync.py\<close>

subsection \<open>get\_all\_key\_paths\<close>

text \<open>
  \<^verbatim>\<open>paths\<close> is a Python set of strings. The two \<^verbatim>\<open>for\<close> loops are \<open>dict_paths\<close> (over
  \<^verbatim>\<open>data.items()\<close>) and \<open>list_paths\<close> (over \<^verbatim>\<open>enumerate(data)\<close>, the index passed along).
  The dictionary loop adds \<^verbatim>\<open>current_path\<close> to the set; the list loop only descends.
\<close>

fun get_all_key_paths :: "json \<Rightarrow> string \<Rightarrow> string set"
  and dict_paths :: "(string \<times> json) list \<Rightarrow> string \<Rightarrow> string set"
  and list_paths :: "json list \<Rightarrow> nat \<Rightarrow> string \<Rightarrow> string set" where
  "get_all_key_paths (JDict kvs) parent_path = dict_paths kvs parent_path"
| "get_all_key_paths (JList xs) parent_path = list_paths xs 0 parent_path"
| "get_all_key_paths JNull parent_path = {}"
| "get_all_key_paths (JBool b) parent_path = {}"
| "get_all_key_paths (JInt n) parent_path = {}"
| "get_all_key_paths (JFloat w) parent_path = {}"
| "get_all_key_paths (JStr s) parent_path = {}"
| "dict_paths [] parent_path = {}"
| "dict_paths ((key, v) # rest) parent_path =
     insert (if parent_path \<noteq> [] then parent_path @ ''.'' @ key else key)
       ((if is_container v
         then get_all_key_paths v (if parent_path \<noteq> [] then parent_path @ ''.'' @ key else key)
         else {})
        \<union> dict_paths rest parent_path)"
| "list_paths [] i parent_path = {}"
| "list_paths (item # rest) i parent_path =
     (if is_container item
      then get_all_key_paths item (parent_path @ ''['' @ dec i @ '']'')
      else {})
     \<union> list_paths rest (i + 1) parent_path"

subsection \<open>compare\_structures\<close>

definition compare_structures :: "json \<Rightarrow> json \<Rightarrow> string set \<times> string set \<times> string set" where
  "compare_structures fr_data en_data =
     (let fr_keys = get_all_key_paths fr_data [];
          en_keys = get_all_key_paths en_data [];
          common = fr_keys \<inter> en_keys;
          missing_in_en = fr_keys - en_keys;
          extra_in_en = en_keys - fr_keys
      in (common, missing_in_en, extra_in_en))"

definition common_of :: "string set \<times> string set \<times> string set \<Rightarrow> string set" where
  "common_of r = fst r"

definition missing_of :: "string set \<times> string set \<times> string set \<Rightarrow> string set" where
  "missing_of r = fst (snd r)"

definition extra_of :: "string set \<times> string set \<times> string set \<Rightarrow> string set" where
  "extra_of r = snd (snd r)"

subsection \<open>verify\_values\<close>

text \<open>The literals that \<^verbatim>\<open>verify_values\<close> accepts as identical in both catalogs.\<close>

definition allowlist :: "string list" where
  "allowlist = [''Call a Star'', ''Dashboard'', ''Email'', ''EUR'', ''USD'']"

text \<open>The f-string \<^verbatim>\<open>f"{path}: '{fr_data}' non traduit"\<close>.\<close>

definition issue_msg :: "string \<Rightarrow> string \<Rightarrow> string" where
  "issue_msg path fr_data = path @ '': '' @ [CHR 0x27] @ fr_data @ [CHR 0x27] @ '' non traduit''"

text \<open>
  \<^verbatim>\<open>x in fr_data\<close> on two strings is the substring test, \<open>sublist x fr_data\<close>. The loop
  \<^verbatim>\<open>for key in fr_data.keys()\<close> is \<open>verify_keys\<close>; \<^verbatim>\<open>fr_data[key]\<close> is the value of the item the
  loop is at, \<^verbatim>\<open>key in en_data\<close> and \<^verbatim>\<open>en_data[key]\<close> are the lookup in the other dictionary.
  There is no branch for lists: two lists, and any other pair of values, give no issue.
\<close>

fun verify_values :: "json \<Rightarrow> json \<Rightarrow> string \<Rightarrow> string list"
  and verify_keys :: "(string \<times> json) list \<Rightarrow> (string \<times> json) list \<Rightarrow> string \<Rightarrow> string list" where
  "verify_values (JDict fkvs) (JDict ekvs) path = verify_keys fkvs ekvs path"
| "verify_values (JStr fr_data) (JStr en_data) path =
     (if fr_data = en_data \<and> length fr_data > 3
      then (if \<not> list_ex (\<lambda>x. sublist x fr_data) allowlist
            then [issue_msg path fr_data] else [])
      else [])"
| "verify_values fr_data en_data path = []"
| "verify_keys [] ekvs path = []"
| "verify_keys ((key, fv) # rest) ekvs path =
     (case map_of ekvs key of
        Some ev \<Rightarrow> verify_values fv ev (if path \<noteq> [] then path @ ''.'' @ key else key)
      | None \<Rightarrow> [])
     @ verify_keys rest ekvs path"

subsection \<open>The report written by main\<close>

record report =
  status :: string
  fr_keys_count :: nat
  en_keys_count :: nat
  common_keys :: nat
  missing_in_en :: "string set"
  extra_in_en :: "string set"
  translation_issues :: "string list"

definition main_report :: "json \<Rightarrow> json \<Rightarrow> report" where
  "main_report fr_data en_data =
     (let r = compare_structures fr_data en_data;
          common = common_of r; missing = missing_of r; extra = extra_of r;
          issues = verify_values fr_data en_data []
      in \<lparr> status = (if missing = {} \<and> extra = {} then ''synchronized'' else ''issues_detected''),
           fr_keys_count = card (get_all_key_paths fr_data []),
           en_keys_count = card (get_all_key_paths en_data []),
           common_keys = card common,
           missing_in_en = missing,
           extra_in_en = extra,
           translation_issues = issues \<rparr>)"

section \<open>sync\_en\_from\_fr\_with\_old.py\<close>

subsection \<open>Strings\<close>

text \<open>
  \<^verbatim>\<open>str.strip()\<close> removes the leading and trailing characters that \<^verbatim>\<open>str.isspace\<close> accepts; among
  the first 256 code points these are 9 to 13, 28 to 32, 133 and 160. The scripts only test the
  result for truth, which is \<open>strip s \<noteq> []\<close>.
\<close>

definition is_space :: "char \<Rightarrow> bool" where
  "is_space c = (of_char c \<in> {9, 10, 11, 12, 13, 28, 29, 30, 31, 32, 133, 160 :: nat})"

definition strip :: "string \<Rightarrow> string" where
  "strip s = rev (dropWhile is_space (rev (dropWhile is_space s)))"

text \<open>
  \<^verbatim>\<open>s.replace(old, new)\<close>: every occurrence of \<open>old\<close> is replaced, from the left and without
  overlap. With an empty \<open>old\<close>, \<open>new\<close> is put before every character and at the end.
\<close>

fun replace :: "string \<Rightarrow> string \<Rightarrow> string \<Rightarrow> string" where
  "replace [] old new = (if old = [] then new else [])"
| "replace (c # cs) old new =
     (if old = [] then new @ c # replace cs old new
      else if prefix old (c # cs) then new @ replace (drop (length old) (c # cs)) old new
      else c # replace cs old new)"

subsection \<open>protect\_placeholders and restore\_placeholders\<close>

text \<open>
  \<^verbatim>\<open>re.findall\<close> with the pattern of \<^verbatim>\<open>protect_placeholders\<close>: an opening brace, one or more
  characters other than the closing brace, a closing brace. The matches are taken from left to
  right without overlap. The character class also accepts the opening brace and line breaks, so a
  match at an opening brace runs to the next closing brace, and there is none when that brace
  follows at once or never comes; the search then goes on one character later.
\<close>

function findall_placeholders :: "string \<Rightarrow> string list" where
  "findall_placeholders [] = []"
| "findall_placeholders (c # cs) =
     (if c = CHR ''{'' \<and> takeWhile (\<lambda>x. x \<noteq> CHR ''}'') cs \<noteq> [] \<and> dropWhile (\<lambda>x. x \<noteq> CHR ''}'') cs \<noteq> []
      then (c # takeWhile (\<lambda>x. x \<noteq> CHR ''}'') cs @ ''}'')
             # findall_placeholders (tl (dropWhile (\<lambda>x. x \<noteq> CHR ''}'') cs))
      else findall_placeholders cs)"
  by pat_completeness auto

termination
  by (relation "measure length")
     (auto simp: less_Suc_eq_le intro!: le_trans [OF diff_le_self length_dropWhile_le])

text \<open>
  \<^verbatim>\<open>d[k] = v\<close> on a dictionary kept as the list of its items: an existing key keeps its place,
  a new key goes to the end.
\<close>

fun dict_set :: "'k \<Rightarrow> 'v \<Rightarrow> ('k \<times> 'v) list \<Rightarrow> ('k \<times> 'v) list" where
  "dict_set k v [] = [(k, v)]"
| "dict_set k v ((k', v') # m) = (if k = k' then (k, v) # m else (k', v') # dict_set k v m)"

text \<open>
  The loop over \<^verbatim>\<open>enumerate(placeholders)\<close> is \<open>protect_loop\<close>. The marker is the f-string
  \<^verbatim>\<open>f"PLACEHOLDER{i}"\<close>. The guard at the top of \<^verbatim>\<open>protect_placeholders\<close> returns a value that is
  not a string unchanged with an empty map; \<^verbatim>\<open>translate_text\<close> makes the same test before it calls
  the function, so the function is given on strings.
\<close>

fun protect_loop :: "string list \<Rightarrow> nat \<Rightarrow> string \<Rightarrow> (string \<times> string) list
    \<Rightarrow> string \<times> (string \<times> string) list" where
  "protect_loop [] i protected placeholder_map = (protected, placeholder_map)"
| "protect_loop (ph # rest) i protected placeholder_map =
     protect_loop rest (i + 1) (replace protected ph (''PLACEHOLDER'' @ dec i))
       (dict_set (''PLACEHOLDER'' @ dec i) ph placeholder_map)"

definition protect_placeholders :: "string \<Rightarrow> string \<times> (string \<times> string) list" where
  "protect_placeholders text = protect_loop (findall_placeholders text) 0 text []"

text \<open>
  The loop over \<^verbatim>\<open>placeholder_map.items()\<close>, in insertion order.
\<close>

fun restore_placeholders :: "string \<Rightarrow> (string \<times> string) list \<Rightarrow> string" where
  "restore_placeholders restored [] = restored"
| "restore_placeholders restored ((marker, ph) # rest) =
     restore_placeholders (replace restored marker ph) rest"

subsection \<open>translate\_text\<close>

text \<open>
  The provider is the \<^verbatim>\<open>GoogleTranslator\<close> object, which is not part of the repository. A run is
  taken against an arbitrary function: \<open>translator n q\<close> is what the call of
  \<^verbatim>\<open>translator.translate(q)\<close> does when \<open>n\<close> calls were made before it, \<open>Some r\<close> when it returns the
  string \<open>r\<close> and \<open>None\<close> when it raises an \<^verbatim>\<open>Exception\<close>. So the provider may answer every call
  differently. \<^verbatim>\<open>time.sleep\<close> only delays and is left out.

  \<open>msg\<close> has the two lines that the merge prints: the progress line with the two counters and the
  failure line with the first 40 characters of the text.
\<close>

type_synonym translator = "nat \<Rightarrow> string \<Rightarrow> string option"

datatype msg = Progress int int | Failed string

text \<open>
  The loop \<^verbatim>\<open>for attempt in range(retry)\<close> of \<^verbatim>\<open>translate_text\<close>, from \<open>attempt\<close> on, after \<open>n\<close>
  earlier calls of the provider. It returns the text that \<^verbatim>\<open>translate_text\<close> returns, the
  arguments of the calls it made, in order, and the lines it printed.
\<close>

function translate_attempts :: "translator \<Rightarrow> nat \<Rightarrow> string \<Rightarrow> string \<Rightarrow> (string \<times> string) list
    \<Rightarrow> int \<Rightarrow> int \<Rightarrow> string \<times> string list \<times> msg list" where
  "translate_attempts translator n text protected ph_map retry attempt =
     (if attempt < retry then
        (case translator n protected of
           Some translated \<Rightarrow> (restore_placeholders translated ph_map, [protected], [])
         | None \<Rightarrow>
             if attempt < retry - 1 then
               (case translate_attempts translator (n + 1) text protected ph_map retry (attempt + 1) of
                  (r, reqs, msgs) \<Rightarrow> (r, protected # reqs, msgs))
             else (text, [protected], [Failed (take 40 text)]))
      else (text, [], []))"
  by pat_completeness auto

termination
  by (relation "measure (\<lambda>(translator, n, text, protected, ph_map, retry, attempt). nat (retry - attempt))") auto

declare translate_attempts.simps [simp del]

text \<open>
  \<^verbatim>\<open>translate_text\<close>: a value that is not a string, and a string that is empty after
  \<^verbatim>\<open>strip()\<close>, is returned as it is before anything else is done.
\<close>

fun translate_text :: "translator \<Rightarrow> nat \<Rightarrow> json \<Rightarrow> int \<Rightarrow> json \<times> string list \<times> msg list" where
  "translate_text translator n (JStr text) retry =
     (if strip text = [] then (JStr text, [], [])
      else (case protect_placeholders text of
              (protected, ph_map) \<Rightarrow>
                (case translate_attempts translator n text protected ph_map retry 0 of
                   (r, reqs, msgs) \<Rightarrow> (JStr r, reqs, msgs))))"
| "translate_text translator n text retry = (text, [], [])"

subsection \<open>sync\_structure\<close>

text \<open>
  \<^verbatim>\<open>get_nested_value\<close>; Python's \<^verbatim>\<open>None\<close> is \<open>JNull\<close>, as it is for \<^verbatim>\<open>json.load\<close>.
\<close>

fun get_nested_value :: "json \<Rightarrow> string list \<Rightarrow> json" where
  "get_nested_value current [] = current"
| "get_nested_value (JDict kvs) (key # keys) =
     (case map_of kvs key of Some v \<Rightarrow> get_nested_value v keys | None \<Rightarrow> JNull)"
| "get_nested_value current (key # keys) = JNull"

text \<open>
  \<^verbatim>\<open>isinstance(en_old_data, dict)\<close>, and the test
  \<^verbatim>\<open>isinstance(en_old_data, str) and en_old_data.strip()\<close> for a legacy value that is reused.
\<close>

fun is_dict :: "json \<Rightarrow> bool" where
  "is_dict (JDict kvs) = True" | "is_dict v = False"

fun nonblank_str :: "json \<Rightarrow> bool" where
  "nonblank_str (JStr s) = (strip s \<noteq> [])" | "nonblank_str v = False"

text \<open>
  The dictionary \<^verbatim>\<open>stats\<close> that \<^verbatim>\<open>sync_structure\<close> updates in place, and with it the trace of the
  run: \<open>requests\<close> has every call made to the provider, in order, as the pair of the
  \<^verbatim>\<open>path_keys\<close> of the leaf that was being translated and the text that was sent; \<open>printed\<close> has
  the lines printed.
\<close>

record run =
  translated :: int
  reused :: int
  total :: int
  requests :: "(string list \<times> string) list"
  printed :: "msg list"

text \<open>
  The loop over \<^verbatim>\<open>fr_data.items()\<close> is \<open>sync_items\<close> and the loop over \<^verbatim>\<open>enumerate(fr_data)\<close> is
  \<open>sync_elems\<close>; \<open>result\<close> is the dictionary or the list built so far. The provider is called with
  as many earlier calls as the trace has requests. \<^verbatim>\<open>path_str\<close> is computed and never used.
  \<^verbatim>\<open>translate_text\<close> is called with its default of 3 attempts.
\<close>

fun sync_structure :: "translator \<Rightarrow> json \<Rightarrow> json \<Rightarrow> string list \<Rightarrow> run \<Rightarrow> json \<times> run"
  and sync_items :: "translator \<Rightarrow> (string \<times> json) list \<Rightarrow> json \<Rightarrow> string list
      \<Rightarrow> (string \<times> json) list \<Rightarrow> run \<Rightarrow> (string \<times> json) list \<times> run"
  and sync_elems :: "translator \<Rightarrow> json list \<Rightarrow> nat \<Rightarrow> json \<Rightarrow> string list
      \<Rightarrow> json list \<Rightarrow> run \<Rightarrow> json list \<times> run" where
  "sync_structure translator (JDict kvs) en_old_data path_keys stats =
     (case sync_items translator kvs en_old_data path_keys [] stats of
        (result, stats') \<Rightarrow> (JDict result, stats'))"
| "sync_structure translator (JList xs) en_old_data path_keys stats =
     (case sync_elems translator xs 0 en_old_data path_keys [] stats of
        (result, stats') \<Rightarrow> (JList result, stats'))"
| "sync_structure translator (JStr fr_data) en_old_data path_keys stats =
     (let stats1 = stats\<lparr>total := total stats + 1\<rparr> in
      if nonblank_str en_old_data then (en_old_data, stats1\<lparr>reused := reused stats1 + 1\<rparr>)
      else
        (let stats2 =
               (if translated stats1 mod 10 = 0 \<and> translated stats1 > 0
                then stats1\<lparr>printed := printed stats1 @ [Progress (translated stats1) (total stats1)]\<rparr>
                else stats1)
         in (case translate_text translator (length (requests stats2)) (JStr fr_data) 3 of
               (v, reqs, msgs) \<Rightarrow>
                 (v, stats2\<lparr>requests := requests stats2 @ map (Pair path_keys) reqs,
                            printed := printed stats2 @ msgs,
                            translated := translated stats2 + 1\<rparr>))))"
| "sync_structure translator JNull en_old_data path_keys stats = (JNull, stats)"
| "sync_structure translator (JBool b) en_old_data path_keys stats = (JBool b, stats)"
| "sync_structure translator (JInt n) en_old_data path_keys stats = (JInt n, stats)"
| "sync_structure translator (JFloat w) en_old_data path_keys stats = (JFloat w, stats)"
| "sync_items translator [] en_old_data path_keys result stats = (result, stats)"
| "sync_items translator ((key, fr_value) # rest) en_old_data path_keys result stats =
     (case sync_structure translator fr_value
             (if is_dict en_old_data then get_nested_value en_old_data [key] else JNull)
             (path_keys @ [key]) stats of
        (v, stats') \<Rightarrow>
          sync_items translator rest en_old_data path_keys (dict_set key v result) stats')"
| "sync_elems translator [] i en_old_data path_keys result stats = (result, stats)"
| "sync_elems translator (fr_item # rest) i en_old_data path_keys result stats =
     (case sync_structure translator fr_item
             (case en_old_data of
                JList ys \<Rightarrow> if i < length ys then ys ! i else JNull
              | _ \<Rightarrow> JNull)
             (path_keys @ [''['' @ dec i @ '']'']) stats of
        (v, stats') \<Rightarrow>
          sync_elems translator rest (i + 1) en_old_data path_keys (result @ [v]) stats')"

text \<open>
  \<^verbatim>\<open>main\<close> calls \<^verbatim>\<open>sync_structure\<close> on the two trees with the three counters at 0 and the default,
  empty \<^verbatim>\<open>path_keys\<close>.
\<close>

definition fresh_stats :: run where
  "fresh_stats = \<lparr>translated = 0, reused = 0, total = 0, requests = [], printed = []\<rparr>"

definition merge :: "translator \<Rightarrow> json \<Rightarrow> json \<Rightarrow> json \<times> run" where
  "merge translator fr_data en_old_data = sync_structure translator fr_data en_old_data [] fresh_stats"

section \<open>Notions used in the statements\<close>

subsection \<open>Paths\<close>

text \<open>
  A path is a list of segments, each a key of a dictionary or an index into a list; \<open>node_at\<close>
  follows a path from the root. \<open>keypath\<close> writes a path the way \<^verbatim>\<open>get_all_key_paths\<close> and
  \<^verbatim>\<open>verify_values\<close> build their strings: keys joined by dots, a key after an empty path without
  the dot, an index in brackets.
\<close>

datatype seg = Key string | Idx nat

fun child :: "json \<Rightarrow> seg \<Rightarrow> json option" where
  "child (JDict kvs) (Key k) = map_of kvs k"
| "child (JList xs) (Idx i) = (if i < length xs then Some (xs ! i) else None)"
| "child t s = None"

fun node_at :: "json \<Rightarrow> seg list \<Rightarrow> json option" where
  "node_at t [] = Some t"
| "node_at t (s # p) = (case child t s of Some c \<Rightarrow> node_at c p | None \<Rightarrow> None)"

fun path_ext :: "string \<Rightarrow> seg \<Rightarrow> string" where
  "path_ext parent (Key k) = (if parent \<noteq> [] then parent @ ''.'' @ k else k)"
| "path_ext parent (Idx i) = parent @ ''['' @ dec i @ '']''"

definition keypath :: "seg list \<Rightarrow> string" where
  "keypath p = foldl path_ext [] p"

fun is_key :: "seg \<Rightarrow> bool" where
  "is_key (Key k) = True" | "is_key (Idx i) = False"

definition ends_in_key :: "seg list \<Rightarrow> bool" where
  "ends_in_key p = (case rev p of [] \<Rightarrow> False | s # q \<Rightarrow> is_key s)"

text \<open>
  \<open>both_at\<close> follows a list of keys through two trees at once, through dictionaries only.
  \<open>flagged\<close> is the test that \<^verbatim>\<open>verify_values\<close> makes on a string leaf that is the same in both trees.
\<close>

fun both_at :: "json \<Rightarrow> json \<Rightarrow> string list \<Rightarrow> (json \<times> json) option" where
  "both_at a b [] = Some (a, b)"
| "both_at (JDict akvs) (JDict bkvs) (k # ks) =
     (case map_of akvs k of
        None \<Rightarrow> None
      | Some av \<Rightarrow> (case map_of bkvs k of None \<Rightarrow> None | Some bv \<Rightarrow> both_at av bv ks))"
| "both_at a b (k # ks) = None"

definition flagged :: "string \<Rightarrow> bool" where
  "flagged s = (3 < length s \<and> \<not> list_ex (\<lambda>x. sublist x s) allowlist)"

text \<open>
  \<open>old_child\<close> is the legacy value that the two loops of \<^verbatim>\<open>sync_structure\<close> hand to the
  recursive call for a child, and \<open>legacy_at\<close> the one that reaches a path: the node of the legacy
  tree at that path, or \<open>JNull\<close> (Python's \<^verbatim>\<open>None\<close>) when the legacy tree has none. \<open>seg_key\<close> is
  the string that is appended to \<^verbatim>\<open>path_keys\<close> for a child, and \<open>pkeys\<close> below the \<^verbatim>\<open>path_keys\<close>
  of a path.
\<close>

fun old_child :: "json \<Rightarrow> seg \<Rightarrow> json" where
  "old_child (JDict kvs) (Key k) = (case map_of kvs k of Some v \<Rightarrow> v | None \<Rightarrow> JNull)"
| "old_child (JList xs) (Idx i) = (if i < length xs then xs ! i else JNull)"
| "old_child l s = JNull"

definition legacy_at :: "json \<Rightarrow> seg list \<Rightarrow> json" where
  "legacy_at l p = foldl old_child l p"

fun seg_key :: "seg \<Rightarrow> string" where
  "seg_key (Key k) = k"
| "seg_key (Idx i) = ''['' @ dec i @ '']''"

subsection \<open>Shapes and counts\<close>

text \<open>
  \<open>skeleton\<close> keeps the dictionaries with their keys and the lists and replaces every leaf by
  \<open>JNull\<close>. \<open>str_leaves\<close> counts the string leaves of a tree and \<open>blank_leaves\<close> those that are
  empty after \<^verbatim>\<open>strip()\<close>. The kind of a node is leaf, sequence with its length, or mapping
  with its keys in order. \<open>progress\<close> is the step of \<^verbatim>\<open>sync_structure\<close> that prints the progress
  line.
\<close>

fun skeleton :: "json \<Rightarrow> json"
  and skeleton_items :: "(string \<times> json) list \<Rightarrow> (string \<times> json) list"
  and skeleton_elems :: "json list \<Rightarrow> json list" where
  "skeleton (JDict kvs) = JDict (skeleton_items kvs)"
| "skeleton (JList xs) = JList (skeleton_elems xs)"
| "skeleton JNull = JNull"
| "skeleton (JBool b) = JNull"
| "skeleton (JInt n) = JNull"
| "skeleton (JFloat w) = JNull"
| "skeleton (JStr s) = JNull"
| "skeleton_items [] = []"
| "skeleton_items ((k, v) # rest) = (k, skeleton v) # skeleton_items rest"
| "skeleton_elems [] = []"
| "skeleton_elems (x # rest) = skeleton x # skeleton_elems rest"

fun str_leaves :: "json \<Rightarrow> int"
  and str_leaves_items :: "(string \<times> json) list \<Rightarrow> int"
  and str_leaves_elems :: "json list \<Rightarrow> int" where
  "str_leaves (JDict kvs) = str_leaves_items kvs"
| "str_leaves (JList xs) = str_leaves_elems xs"
| "str_leaves (JStr s) = 1"
| "str_leaves JNull = 0"
| "str_leaves (JBool b) = 0"
| "str_leaves (JInt n) = 0"
| "str_leaves (JFloat w) = 0"
| "str_leaves_items [] = 0"
| "str_leaves_items ((k, v) # rest) = str_leaves v + str_leaves_items rest"
| "str_leaves_elems [] = 0"
| "str_leaves_elems (x # rest) = str_leaves x + str_leaves_elems rest"

definition progress :: "run \<Rightarrow> run" where
  "progress st = (if translated st mod 10 = 0 \<and> translated st > 0
                  then st\<lparr>printed := printed st @ [Progress (translated st) (total st)]\<rparr> else st)"

datatype kind = Leaf | Sequence nat | Mapping "string list"

fun kind_of :: "json \<Rightarrow> kind" where
  "kind_of (JDict kvs) = Mapping (map fst kvs)"
| "kind_of (JList xs) = Sequence (length xs)"
| "kind_of v = Leaf"

fun blank_leaves :: "json \<Rightarrow> int"
  and blank_leaves_items :: "(string \<times> json) list \<Rightarrow> int"
  and blank_leaves_elems :: "json list \<Rightarrow> int" where
  "blank_leaves (JDict kvs) = blank_leaves_items kvs"
| "blank_leaves (JList xs) = blank_leaves_elems xs"
| "blank_leaves (JStr s) = (if strip s = [] then 1 else 0)"
| "blank_leaves JNull = 0"
| "blank_leaves (JBool b) = 0"
| "blank_leaves (JInt n) = 0"
| "blank_leaves (JFloat w) = 0"
| "blank_leaves_items [] = 0"
| "blank_leaves_items ((k, v) # rest) = blank_leaves v + blank_leaves_items rest"
| "blank_leaves_elems [] = 0"
| "blank_leaves_elems (x # rest) = blank_leaves x + blank_leaves_elems rest"

subsection \<open>The trace of requests\<close>

text \<open>
  \<open>undec\<close> reads a decimal numeral. \<open>tagged t\<close> keeps the requests made for the leaf whose
  \<^verbatim>\<open>path_keys\<close> is \<open>t\<close>, and \<open>emitted\<close> the requests added between two states.
\<close>

definition undec :: "string \<Rightarrow> nat" where
  "undec s = foldl (\<lambda>a c. 10 * a + (of_char c - 48)) 0 s"

definition tagged :: "string list \<Rightarrow> (string list \<times> string) list \<Rightarrow> (string list \<times> string) list" where
  "tagged t log = filter (\<lambda>e. fst e = t) log"

definition emitted :: "run \<Rightarrow> run \<Rightarrow> (string list \<times> string) list" where
  "emitted st st' = drop (length (requests st)) (requests st')"

definition pkeys :: "seg list \<Rightarrow> string list" where
  "pkeys p = map seg_key p"

subsection \<open>Texts with markers\<close>


definition mk :: "nat \<Rightarrow> string" where
  "mk i = ''PLACEHOLDER'' @ dec i"




section \<open>Key paths and unmodified leaves\<close>

lemma ends_in_key_simps [simp]:
  "ends_in_key [] = False"
  "ends_in_key [s] = is_key s"
  "q \<noteq> [] \<Longrightarrow> ends_in_key (s # q) = ends_in_key q"
  by (auto simp: ends_in_key_def split: list.splits)

lemma guard_container [simp]:
  "(if is_container v then get_all_key_paths v p else {}) = get_all_key_paths v p"
  by (cases v) auto

lemma dict_paths_key: "map_of kvs k = Some v \<Longrightarrow> path_ext parent (Key k) \<in> dict_paths kvs parent"
  by (induction kvs) (auto split: if_splits)

lemma dict_paths_sub:
  "map_of kvs k = Some v \<Longrightarrow> get_all_key_paths v (path_ext parent (Key k)) \<subseteq> dict_paths kvs parent"
  by (induction kvs) (auto split: if_splits)

lemma list_paths_sub:
  "i < length xs \<Longrightarrow> get_all_key_paths (xs ! i) (path_ext parent (Idx (i0 + i))) \<subseteq> list_paths xs i0 parent"
proof (induction xs arbitrary: i i0)
  case Nil then show ?case by simp
next
  case (Cons x xs)
  show ?case
  proof (cases i)
    case 0 then show ?thesis by auto
  next
    case (Suc j)
    with Cons.prems have "j < length xs" by simp
    from Cons.IH[OF this, of "Suc i0"] Suc show ?thesis by auto
  qed
qed

lemma child_sub:
  "child t s = Some c \<Longrightarrow> get_all_key_paths c (path_ext parent s) \<subseteq> get_all_key_paths t parent"
proof (cases t; cases s)
  fix kvs k assume "t = JDict kvs" "s = Key k" "child t s = Some c"
  then show ?thesis using dict_paths_sub[of kvs k c parent] by simp
next
  fix xs i assume "t = JList xs" "s = Idx i" "child t s = Some c"
  then show ?thesis using list_paths_sub[of i xs parent 0] by (auto split: if_splits)
qed auto

lemma paths_complete:
  "ends_in_key p \<Longrightarrow> node_at t p \<noteq> None \<Longrightarrow> foldl path_ext parent p \<in> get_all_key_paths t parent"
proof (induction p arbitrary: t parent)
  case Nil then show ?case by simp
next
  case (Cons s q)
  from Cons.prems(2) obtain c where c: "child t s = Some c" and n: "node_at c q \<noteq> None"
    by (auto split: option.splits)
  show ?case
  proof (cases "q = []")
    case True
    with Cons.prems(1) obtain k where k: "s = Key k" by (cases s) auto
    with c obtain kvs where "t = JDict kvs" "map_of kvs k = Some c" by (cases t) auto
    then show ?thesis using True k dict_paths_key[of kvs k c parent] by simp
  next
    case False
    with Cons.prems(1) have "ends_in_key q" by simp
    from Cons.IH[OF this n] child_sub[OF c] show ?thesis by auto
  qed
qed

lemma paths_nonempty_container: "s \<in> get_all_key_paths v p \<Longrightarrow> is_container v"
  by (cases v) auto

lemma paths_sound_aux:
  shows "wf_json t \<Longrightarrow> s \<in> get_all_key_paths t parent \<Longrightarrow>
           \<exists>p. ends_in_key p \<and> node_at t p \<noteq> None \<and> s = foldl path_ext parent p"
    and "wf_items kvs \<Longrightarrow> s \<in> dict_paths kvs parent \<Longrightarrow>
           \<exists>k v. (k, v) \<in> set kvs \<and>
             (s = path_ext parent (Key k) \<or>
              (\<exists>q. ends_in_key q \<and> node_at v q \<noteq> None \<and> s = foldl path_ext (path_ext parent (Key k)) q))"
    and "wf_elems xs \<Longrightarrow> s \<in> list_paths xs i parent \<Longrightarrow>
           \<exists>j q. j < length xs \<and> ends_in_key q \<and> node_at (xs ! j) q \<noteq> None \<and>
             s = foldl path_ext (path_ext parent (Idx (i + j))) q"
proof (induction t parent and kvs parent and xs i parent arbitrary: s and s and s
       rule: get_all_key_paths_dict_paths_list_paths.induct)
  case (1 kvs parent)
  then obtain k v where kv: "(k, v) \<in> set kvs"
    and s: "s = path_ext parent (Key k) \<or>
              (\<exists>q. ends_in_key q \<and> node_at v q \<noteq> None \<and> s = foldl path_ext (path_ext parent (Key k)) q)"
    by fastforce
  from "1.prems"(1) kv have m: "map_of kvs k = Some v" by simp
  from s show ?case
  proof
    assume "s = path_ext parent (Key k)"
    with m show ?thesis by (intro exI[of _ "[Key k]"]) simp
  next
    assume "\<exists>q. ends_in_key q \<and> node_at v q \<noteq> None \<and> s = foldl path_ext (path_ext parent (Key k)) q"
    then obtain q where q: "ends_in_key q" "node_at v q \<noteq> None" "s = foldl path_ext (path_ext parent (Key k)) q"
      by blast
    then have "q \<noteq> []" by auto
    with q m show ?thesis by (intro exI[of _ "Key k # q"]) simp
  qed
next
  case (2 xs parent)
  then obtain j q where jq: "j < length xs" "ends_in_key q" "node_at (xs ! j) q \<noteq> None"
     "s = foldl path_ext (path_ext parent (Idx (0 + j))) q"
    by fastforce
  then have "q \<noteq> []" by auto
  with jq show ?case by (intro exI[of _ "Idx j # q"]) simp
next
  case (9 key v rest parent)
  from "9.prems" have wf: "wf_json v" "wf_items rest" by auto
  let ?cp = "if parent \<noteq> [] then parent @ ''.'' @ key else key"
  from "9.prems"(2) consider "s = ?cp" | "is_container v" "s \<in> get_all_key_paths v ?cp" | "s \<in> dict_paths rest parent"
    by (auto split: if_splits dest: paths_nonempty_container)
  then show ?case
  proof cases
    case 1 then show ?thesis by (intro exI[of _ key] exI[of _ v]) simp
  next
    case 2
    from "9.IH"(1)[OF 2(1) wf(1) 2(2)] show ?thesis by (intro exI[of _ key] exI[of _ v]) simp
  next
    case 3
    from "9.IH"(2)[OF wf(2) 3] obtain k w where "(k, w) \<in> set rest"
      "s = path_ext parent (Key k) \<or>
         (\<exists>q. ends_in_key q \<and> node_at w q \<noteq> None \<and> s = foldl path_ext (path_ext parent (Key k)) q)"
      by blast
    moreover from this(1) have "(k, w) \<in> set ((key, v) # rest)" by simp
    ultimately show ?thesis by blast
  qed
next
  case (11 item rest i parent)
  from "11.prems" have wf: "wf_json item" "wf_elems rest" by auto
  let ?cp = "parent @ ''['' @ dec i @ '']''"
  from "11.prems"(2) consider "is_container item" "s \<in> get_all_key_paths item ?cp" | "s \<in> list_paths rest (i + 1) parent"
    by (auto split: if_splits dest: paths_nonempty_container)
  then show ?case
  proof cases
    case 1
    from "11.IH"(1)[OF 1(1) wf(1) 1(2)] show ?thesis by (intro exI[of _ 0]) simp
  next
    case 2
    from "11.IH"(2)[OF wf(2) 2] obtain j q where "j < length rest" "ends_in_key q"
      "node_at (rest ! j) q \<noteq> None" "s = foldl path_ext (path_ext parent (Idx (i + 1 + j))) q" by blast
    then show ?thesis by (intro exI[of _ "Suc j"] exI[of _ q]) simp
  qed
qed auto

text \<open>
  Claim C7, as amended. For every tree, \<open>get_all_key_paths\<close> returns exactly the paths, in the
  dotted and bracketed notation, of the nodes that are the value of a dictionary key, whether
  that value is a leaf or a container and whether the dictionary lies inside lists or not.
  The elements of a list are not reported themselves; only the keys below them are.
\<close>

theorem key_paths_exact:
  assumes "wf_json t"
  shows "get_all_key_paths t [] = {keypath p | p. ends_in_key p \<and> node_at t p \<noteq> None}"
  using paths_sound_aux(1)[OF assms, of _ "[]"] paths_complete[of _ t "[]"]
  unfolding keypath_def by blast

lemma verify_keys_sub:
  "map_of fkvs k = Some fv \<Longrightarrow> map_of ekvs k = Some ev \<Longrightarrow>
   set (verify_values fv ev (path_ext path (Key k))) \<subseteq> set (verify_keys fkvs ekvs path)"
  by (induction fkvs) (auto split: if_splits)

lemma verify_complete:
  "both_at A B ks = Some (JStr s, JStr s) \<Longrightarrow> flagged s \<Longrightarrow>
   issue_msg (foldl path_ext path (map Key ks)) s \<in> set (verify_values A B path)"
proof (induction ks arbitrary: A B path)
  case Nil
  then show ?case by (simp add: flagged_def)
next
  case (Cons k ks)
  from Cons.prems(1) obtain akvs bkvs av bv where
    A: "A = JDict akvs" and B: "B = JDict bkvs"
    and a: "map_of akvs k = Some av" and b: "map_of bkvs k = Some bv"
    and r: "both_at av bv ks = Some (JStr s, JStr s)"
    by (cases A; cases B) (auto split: option.splits)
  have "issue_msg (foldl path_ext (path_ext path (Key k)) (map Key ks)) s
          \<in> set (verify_keys akvs bkvs path)"
    using Cons.IH[OF r Cons.prems(2), of "path_ext path (Key k)"] verify_keys_sub[OF a b, of path]
    by blast
  then show ?case using A B by simp
qed

lemma verify_sound_aux:
  shows "wf_json A \<Longrightarrow> m \<in> set (verify_values A B path) \<Longrightarrow>
           \<exists>ks s. both_at A B ks = Some (JStr s, JStr s) \<and> flagged s \<and>
             m = issue_msg (foldl path_ext path (map Key ks)) s"
    and "wf_items fkvs \<Longrightarrow> m \<in> set (verify_keys fkvs ekvs path) \<Longrightarrow>
           \<exists>k fv ev ks s. (k, fv) \<in> set fkvs \<and> map_of ekvs k = Some ev \<and>
             both_at fv ev ks = Some (JStr s, JStr s) \<and> flagged s \<and>
             m = issue_msg (foldl path_ext (path_ext path (Key k)) (map Key ks)) s"
proof (induction A B path and fkvs ekvs path arbitrary: m and m
       rule: verify_values_verify_keys.induct)
  case (1 fkvs ekvs path)
  then obtain k fv ev ks s where h: "(k, fv) \<in> set fkvs" "map_of ekvs k = Some ev"
    "both_at fv ev ks = Some (JStr s, JStr s)" "flagged s"
    "m = issue_msg (foldl path_ext (path_ext path (Key k)) (map Key ks)) s"
    by fastforce
  from "1.prems"(1) h(1) have "map_of fkvs k = Some fv" by simp
  with h show ?case by (intro exI[of _ "k # ks"] exI[of _ s]) simp
next
  case (2 fr_data en_data path)
  then show ?case by (intro exI[of _ "[]"] exI[of _ fr_data]) (auto simp: flagged_def split: if_splits)
next
  case (5 key fv rest ekvs path)
  from "5.prems" have wf: "wf_json fv" "wf_items rest" by auto
  let ?cp = "if path \<noteq> [] then path @ ''.'' @ key else key"
  from "5.prems"(2) consider ev where "map_of ekvs key = Some ev" "m \<in> set (verify_values fv ev ?cp)"
    | "m \<in> set (verify_keys rest ekvs path)"
    by (cases "map_of ekvs key") auto
  then show ?case
  proof cases
    case 1
    from "5.IH"(1)[OF 1(1) wf(1) 1(2)] 1(1) show ?thesis
      by (intro exI[of _ key] exI[of _ fv] exI[of _ ev]) simp
  next
    case 2
    from "5.IH"(2)[OF wf(2) 2] obtain k fv' ev ks s where "(k, fv') \<in> set rest"
      "map_of ekvs k = Some ev \<and>
             both_at fv' ev ks = Some (JStr s, JStr s) \<and> flagged s \<and>
             m = issue_msg (foldl path_ext (path_ext path (Key k)) (map Key ks)) s"
      by blast
    moreover from this(1) have "(k, fv') \<in> set ((key, fv) # rest)" by simp
    ultimately show ?thesis by blast
  qed
qed auto

text \<open>
  Claim C8, as amended. \<open>verify_values\<close>, walking A and B in lockstep through dictionaries over
  the keys present in both, reports exactly the pairs of string leaves at the same path that are
  identical, longer than 3 characters and contain none of the accepted literals as a substring.
  Leaves that are not strings are never reported.
\<close>

theorem unmodified_exact:
  assumes "wf_json A"
  shows "set (verify_values A B []) =
     {issue_msg (keypath (map Key ks)) s | ks s.
        both_at A B ks = Some (JStr s, JStr s) \<and> flagged s}"
  using verify_sound_aux(1)[OF assms, of _ B "[]"] verify_complete[of A B _ _ "[]"]
  unfolding keypath_def by blast

text \<open>
  Claim C7 as stated fails: the element \<open>a[0]\<close> of the list under key \<open>a\<close> is a node of the tree,
  and its path is not among the paths returned.
\<close>

theorem key_paths_sequence_counterexample:
  "node_at (JDict [(''a'', JList [JStr ''x''])]) [Key ''a'', Idx 0] = Some (JStr ''x'')
   \<and> keypath [Key ''a'', Idx 0] = ''a[0]''
   \<and> get_all_key_paths (JDict [(''a'', JList [JStr ''x''])]) [] = {''a''}
   \<and> keypath [Key ''a'', Idx 0] \<notin> get_all_key_paths (JDict [(''a'', JList [JStr ''x''])]) []"
  by (simp add: keypath_def dec.simps digit_def)

theorem key_paths_exact_witness:
  "wf_json (JDict [(''a'', JList [JStr ''x'', JDict [(''b'', JNull)]])])
   \<and> get_all_key_paths (JDict [(''a'', JList [JStr ''x'', JDict [(''b'', JNull)]])]) []
       = {keypath p | p. ends_in_key p
            \<and> node_at (JDict [(''a'', JList [JStr ''x'', JDict [(''b'', JNull)]])]) p \<noteq> None}"
proof -
  have wf: "wf_json (JDict [(''a'', JList [JStr ''x'', JDict [(''b'', JNull)]])])" by simp
  from wf key_paths_exact [OF wf] show ?thesis by (rule conjI)
qed

text \<open>
  Claim C8 as stated fails: an identical leaf that is not itself one of the accepted literals, but
  contains one, is not reported.
\<close>

theorem unmodified_substring_counterexample:
  "both_at (JDict [(''msg'', JStr ''Send Email now'')]) (JDict [(''msg'', JStr ''Send Email now'')]) [''msg'']
      = Some (JStr ''Send Email now'', JStr ''Send Email now'')
   \<and> 3 < length ''Send Email now''
   \<and> ''Send Email now'' \<notin> set allowlist
   \<and> verify_values (JDict [(''msg'', JStr ''Send Email now'')]) (JDict [(''msg'', JStr ''Send Email now'')]) [] = []"
  by (simp add: allowlist_def sublist_Cons_right)

lemma verify_values_skips_lists:
  "node_at (JList [JStr ''Bonjour'']) [Idx 0] = Some (JStr ''Bonjour'')
   \<and> 3 < length ''Bonjour''
   \<and> ''Bonjour'' \<notin> set allowlist
   \<and> verify_values (JList [JStr ''Bonjour'']) (JList [JStr ''Bonjour'']) [] = []"
  by (simp add: allowlist_def)

theorem unmodified_exact_witness:
  "wf_json (JDict [(''msg'', JStr ''Bonjour'')])
   \<and> set (verify_values (JDict [(''msg'', JStr ''Bonjour'')]) (JDict [(''msg'', JStr ''Bonjour'')]) []) =
     {issue_msg (keypath (map Key ks)) s | ks s.
        both_at (JDict [(''msg'', JStr ''Bonjour'')]) (JDict [(''msg'', JStr ''Bonjour'')]) ks = Some (JStr s, JStr s) \<and> flagged s}"
proof -
  have wf: "wf_json (JDict [(''msg'', JStr ''Bonjour'')])" by simp
  from wf unmodified_exact [OF wf] show ?thesis by (rule conjI)
qed

lemma scenario_untranslated_leaf: "verify_values (JDict [(''msg'', JStr ''Bonjour'')]) (JDict [(''msg'', JStr ''Bonjour'')]) [] = [issue_msg ''msg'' ''Bonjour'']"
  by (simp add: allowlist_def sublist_Cons_right)

section \<open>Properties of the validator\<close>

text \<open>
  Claim C6. For all trees A and B, the paths that \<open>compare_structures A B\<close> reports as missing in B
  are the paths that \<open>compare_structures B A\<close> reports as extra in its second argument.
\<close>

theorem compare_structures_symmetry:
  "missing_of (compare_structures A B) = extra_of (compare_structures B A)"
  by (simp add: compare_structures_def missing_of_def extra_of_def Let_def)

text \<open>
  Claim C9. The status field of the report that \<open>main\<close> builds from the two trees is
  "synchronized" exactly when the set of paths that \<open>compare_structures\<close> finds missing in the
  output and the set of paths it finds extra are both empty, that is, exactly when the two trees
  have the same key paths; in every other case it is "issues\_detected". The two sets stored in
  the report are the ones \<open>compare_structures\<close> returned.
\<close>

theorem report_status_synchronized_iff:
  "(status (main_report fr_data en_data) = ''synchronized'')
     = (missing_of (compare_structures fr_data en_data) = {}
        \<and> extra_of (compare_structures fr_data en_data) = {})
   \<and> (status (main_report fr_data en_data) = ''issues_detected'')
     = (\<not> (missing_of (compare_structures fr_data en_data) = {}
           \<and> extra_of (compare_structures fr_data en_data) = {}))
   \<and> (status (main_report fr_data en_data) = ''synchronized'')
     = (get_all_key_paths fr_data [] = get_all_key_paths en_data [])
   \<and> missing_in_en (main_report fr_data en_data) = get_all_key_paths fr_data [] - get_all_key_paths en_data []
   \<and> extra_in_en (main_report fr_data en_data) = get_all_key_paths en_data [] - get_all_key_paths fr_data []
   \<and> (status (main_report fr_data en_data) = ''synchronized'')
     = (missing_in_en (main_report fr_data en_data) = {}
        \<and> extra_in_en (main_report fr_data en_data) = {})
   \<and> (status (main_report fr_data en_data) = ''synchronized''
      \<or> status (main_report fr_data en_data) = ''issues_detected'')"
proof -
  let ?A = "get_all_key_paths fr_data []" and ?B = "get_all_key_paths en_data []"
  have m: "missing_of (compare_structures fr_data en_data) = ?A - ?B"
    and e: "extra_of (compare_structures fr_data en_data) = ?B - ?A"
    by (simp_all add: compare_structures_def missing_of_def extra_of_def Let_def)
  have s: "status (main_report fr_data en_data)
            = (if ?A - ?B = {} \<and> ?B - ?A = {} then ''synchronized'' else ''issues_detected'')"
    by (simp add: main_report_def Let_def m e)
  have r: "missing_in_en (main_report fr_data en_data) = ?A - ?B"
          "extra_in_en (main_report fr_data en_data) = ?B - ?A"
    by (simp_all add: main_report_def Let_def m e)
  have q: "(?A - ?B = {} \<and> ?B - ?A = {}) = (?A = ?B)" by blast
  show ?thesis unfolding m e r s q by simp
qed

text \<open>
  Scenario 2 of the specification: the reference has the key paths a, b, c and the output a, b;
  the comparison reports c as missing and the status is "issues\_detected".
\<close>

lemma scenario_structural_drift:
  "compare_structures (JDict [(''a'', JInt 1), (''b'', JInt 2), (''c'', JInt 3)])
                      (JDict [(''a'', JInt 1), (''b'', JInt 2)])
     = ({''a'', ''b''}, {''c''}, {})
   \<and> status (main_report (JDict [(''a'', JInt 1), (''b'', JInt 2), (''c'', JInt 3)])
                         (JDict [(''a'', JInt 1), (''b'', JInt 2)])) = ''issues_detected''"
  by (auto simp: main_report_def compare_structures_def missing_of_def extra_of_def Let_def)

section \<open>Properties of the merge\<close>

lemma dict_set_fresh: "k \<notin> fst ` set m \<Longrightarrow> dict_set k v m = m @ [(k, v)]"
  by (induction m) auto

lemma sync_items_acc:
  "distinct (map fst kvs) \<Longrightarrow> fst ` set acc \<inter> fst ` set kvs = {} \<Longrightarrow>
   sync_items tr kvs old pk acc st =
     (acc @ fst (sync_items tr kvs old pk [] st), snd (sync_items tr kvs old pk [] st))"
proof (induction kvs arbitrary: acc st)
  case Nil
  then show ?case by simp
next
  case (Cons kv rest)
  obtain k v where kv: "kv = (k, v)" by (cases kv)
  obtain out st1 where r: "sync_structure tr v (if is_dict old then get_nested_value old [k] else JNull)
       (pk @ [k]) st = (out, st1)" by (cases "sync_structure tr v (if is_dict old then get_nested_value old [k] else JNull) (pk @ [k]) st")
  from Cons.prems kv have d: "distinct (map fst rest)" and k1: "k \<notin> fst ` set rest" and k2: "k \<notin> fst ` set acc"
    by auto
  have a1: "fst ` set (acc @ [(k, out)]) \<inter> fst ` set rest = {}" using Cons.prems k1 kv by auto
  have a2: "fst ` set [(k, out)] \<inter> fst ` set rest = {}" using k1 by auto
  show ?case
    using Cons.IH[OF d a1, of st1] Cons.IH[OF d a2, of st1] kv r k2
    by (simp add: dict_set_fresh)
qed

lemma sync_elems_acc:
  "sync_elems tr xs i old pk acc st =
     (acc @ fst (sync_elems tr xs i old pk [] st), snd (sync_elems tr xs i old pk [] st))"
proof (induction xs arbitrary: acc st i)
  case Nil
  then show ?case by simp
next
  case (Cons x rest)
  obtain out st1 where r: "sync_structure tr x (case old of JList ys \<Rightarrow> if i < length ys then ys ! i else JNull | _ \<Rightarrow> JNull)
       (pk @ [''['' @ dec i @ '']'']) st = (out, st1)"
    by (cases "sync_structure tr x (case old of JList ys \<Rightarrow> if i < length ys then ys ! i else JNull | _ \<Rightarrow> JNull) (pk @ [''['' @ dec i @ '']'']) st")
  show ?case
    using Cons.IH[of "Suc i" "acc @ [out]" st1] Cons.IH[of "Suc i" "[out]" st1] r
    by simp
qed

lemma old_value_key: "(if is_dict old then get_nested_value old [k] else JNull) = old_child old (Key k)"
  by (cases old) (auto split: option.splits)

lemma old_item_idx: "(case old of JList ys \<Rightarrow> if i < length ys then ys ! i else JNull | _ \<Rightarrow> JNull) = old_child old (Idx i)"
  by (cases old) auto

lemma sync_items_Cons:
  assumes "k \<notin> fst ` set rest" "distinct (map fst rest)"
  shows "sync_items tr ((k, v) # rest) old pk [] st =
     (case sync_structure tr v (old_child old (Key k)) (pk @ [seg_key (Key k)]) st of
        (out, st1) \<Rightarrow> (case sync_items tr rest old pk [] st1 of
           (res, st2) \<Rightarrow> ((k, out) # res, st2)))"
proof -
  obtain out st1 where r: "sync_structure tr v (old_child old (Key k)) (pk @ [k]) st = (out, st1)"
    by (cases "sync_structure tr v (old_child old (Key k)) (pk @ [k]) st")
  have "fst ` set [(k, out)] \<inter> fst ` set rest = {}" using assms by auto
  from sync_items_acc[OF assms(2) this, of tr old pk st1] r show ?thesis
    by (simp add: old_value_key split: prod.splits)
qed

lemma sync_elems_Cons:
  "sync_elems tr (x # rest) i old pk [] st =
     (case sync_structure tr x (old_child old (Idx i)) (pk @ [seg_key (Idx i)]) st of
        (out, st1) \<Rightarrow> (case sync_elems tr rest (Suc i) old pk [] st1 of
           (res, st2) \<Rightarrow> (out # res, st2)))"
proof -
  obtain out st1 where r: "sync_structure tr x (old_child old (Idx i)) (pk @ [''['' @ dec i @ '']'']) st = (out, st1)"
    by (cases "sync_structure tr x (old_child old (Idx i)) (pk @ [''['' @ dec i @ '']'']) st")
  from sync_elems_acc[of tr rest "Suc i" old pk "[out]" st1] r show ?thesis
    by (simp add: old_item_idx split: prod.splits)
qed

lemma nonblank_strE: "nonblank_str l \<Longrightarrow> (\<And>x. l = JStr x \<Longrightarrow> strip x \<noteq> [] \<Longrightarrow> thesis) \<Longrightarrow> thesis"
  by (cases l) auto

lemma translate_text_str: "\<exists>r. fst (translate_text tr n (JStr s) retry) = JStr r"
  by (auto split: prod.splits)

lemma sync_leaf_reuse:
  "nonblank_str l \<Longrightarrow>
   sync_structure tr (JStr s) l pk st = (l, st\<lparr>total := total st + 1, reused := reused st + 1\<rparr>)"
  by (simp add: Let_def)

lemma progress_fields [simp]:
  "translated (progress st) = translated st" "reused (progress st) = reused st"
  "total (progress st) = total st" "requests (progress st) = requests st"
  by (simp_all add: progress_def)

lemma sync_leaf_translate:
  "\<not> nonblank_str l \<Longrightarrow>
   sync_structure tr (JStr s) l pk st =
     (case translate_text tr (length (requests st)) (JStr s) 3 of
        (v, reqs, msgs) \<Rightarrow>
          (v, (progress (st\<lparr>total := total st + 1\<rparr>))
                \<lparr>requests := requests st @ map (Pair pk) reqs,
                 printed := printed (progress (st\<lparr>total := total st + 1\<rparr>)) @ msgs,
                 translated := translated st + 1\<rparr>))"
  by (simp add: Let_def progress_def split: prod.splits)

declare sync_structure.simps(3) [simp del]

declare sync_items.simps(2) [simp del]

declare sync_elems.simps(2) [simp del]

lemma sync_leaf_is_str: "\<exists>r. fst (sync_structure tr (JStr s) l pk st) = JStr r"
proof (cases "nonblank_str l")
  case True
  then show ?thesis by (auto simp: sync_leaf_reuse elim: nonblank_strE)
next
  case False
  obtain v reqs msgs where t: "translate_text tr (length (requests st)) (JStr s) 3 = (v, reqs, msgs)"
    by (cases "translate_text tr (length (requests st)) (JStr s) 3")
  with translate_text_str[of tr "length (requests st)" s 3] obtain r where "v = JStr r" by auto
  with t False show ?thesis by (simp add: sync_leaf_translate)
qed

lemma sync_leaf_counters:
  "total (snd (sync_structure tr (JStr s) l pk st)) = total st + 1"
  "reused (snd (sync_structure tr (JStr s) l pk st)) + translated (snd (sync_structure tr (JStr s) l pk st))
     = reused st + translated st + 1"
  by (cases "nonblank_str l"; simp add: sync_leaf_reuse sync_leaf_translate split: prod.splits)+

lemma sync_dict_proj [simp]:
  "fst (sync_structure tr (JDict kvs) L pk st) = JDict (fst (sync_items tr kvs L pk [] st))"
  "snd (sync_structure tr (JDict kvs) L pk st) = snd (sync_items tr kvs L pk [] st)"
  by (simp_all add: case_prod_unfold)

lemma sync_list_proj [simp]:
  "fst (sync_structure tr (JList xs) L pk st) = JList (fst (sync_elems tr xs 0 L pk [] st))"
  "snd (sync_structure tr (JList xs) L pk st) = snd (sync_elems tr xs 0 L pk [] st)"
  by (simp_all add: case_prod_unfold)

lemma sync_items_proj:
  assumes "k \<notin> fst ` set rest" "distinct (map fst rest)"
  shows "fst (sync_items tr ((k, v) # rest) L pk [] st) =
           (k, fst (sync_structure tr v (old_child L (Key k)) (pk @ [seg_key (Key k)]) st))
           # fst (sync_items tr rest L pk []
                    (snd (sync_structure tr v (old_child L (Key k)) (pk @ [seg_key (Key k)]) st)))"
    and "snd (sync_items tr ((k, v) # rest) L pk [] st) =
           snd (sync_items tr rest L pk []
                    (snd (sync_structure tr v (old_child L (Key k)) (pk @ [seg_key (Key k)]) st)))"
  by (simp_all add: sync_items_Cons[OF assms] case_prod_unfold)

lemma sync_elems_proj:
  shows "fst (sync_elems tr (x # rest) i L pk [] st) =
           fst (sync_structure tr x (old_child L (Idx i)) (pk @ [seg_key (Idx i)]) st)
           # fst (sync_elems tr rest (Suc i) L pk []
                    (snd (sync_structure tr x (old_child L (Idx i)) (pk @ [seg_key (Idx i)]) st)))"
    and "snd (sync_elems tr (x # rest) i L pk [] st) =
           snd (sync_elems tr rest (Suc i) L pk []
                    (snd (sync_structure tr x (old_child L (Idx i)) (pk @ [seg_key (Idx i)]) st)))"
  by (simp_all add: sync_elems_Cons case_prod_unfold)

declare sync_structure.simps(1,2) [simp del]

lemma sync_skeleton:
  shows "wf_json R \<Longrightarrow> skeleton (fst (sync_structure tr R L pk st)) = skeleton R"
    and "wf_items kvs \<Longrightarrow> distinct (map fst kvs) \<Longrightarrow>
           skeleton_items (fst (sync_items tr kvs L pk [] st)) = skeleton_items kvs"
    and "wf_elems xs \<Longrightarrow> skeleton_elems (fst (sync_elems tr xs i L pk [] st)) = skeleton_elems xs"
proof (induction R and kvs and xs arbitrary: L pk st and L pk st and L pk st i
       rule: wf_json_wf_items_wf_elems.induct)
  case (7 s)
  from sync_leaf_is_str[of tr s L pk st] show ?case by auto
qed (simp_all add: sync_items_proj sync_elems_proj del: seg_key.simps)

lemma sync_counters:
  shows "wf_json R \<Longrightarrow>
           total (snd (sync_structure tr R L pk st)) = total st + str_leaves R \<and>
           reused (snd (sync_structure tr R L pk st)) + translated (snd (sync_structure tr R L pk st))
             = reused st + translated st + str_leaves R"
    and "wf_items kvs \<Longrightarrow> distinct (map fst kvs) \<Longrightarrow>
           total (snd (sync_items tr kvs L pk [] st)) = total st + str_leaves_items kvs \<and>
           reused (snd (sync_items tr kvs L pk [] st)) + translated (snd (sync_items tr kvs L pk [] st))
             = reused st + translated st + str_leaves_items kvs"
    and "wf_elems xs \<Longrightarrow>
           total (snd (sync_elems tr xs i L pk [] st)) = total st + str_leaves_elems xs \<and>
           reused (snd (sync_elems tr xs i L pk [] st)) + translated (snd (sync_elems tr xs i L pk [] st))
             = reused st + translated st + str_leaves_elems xs"
proof (induction R and kvs and xs arbitrary: L pk st and L pk st and L pk st i
       rule: wf_json_wf_items_wf_elems.induct)
  case (7 s)
  show ?case using sync_leaf_counters[of tr s L pk st] by simp
qed (simp_all add: sync_items_proj sync_elems_proj del: seg_key.simps)

lemma skeleton_items_keys [simp]: "map fst (skeleton_items kvs) = map fst kvs"
  by (induction kvs) auto

lemma skeleton_elems_length [simp]: "length (skeleton_elems xs) = length xs"
  by (induction xs) auto

lemma skeleton_elems_nth: "i < length xs \<Longrightarrow> skeleton_elems xs ! i = skeleton (xs ! i)"
  by (induction xs arbitrary: i) (auto simp: nth_Cons')

lemma skeleton_items_map_of: "map_of (skeleton_items kvs) k = map_option skeleton (map_of kvs k)"
  by (induction kvs) auto

lemma kind_of_skeleton [simp]: "kind_of (skeleton t) = kind_of t"
  by (cases t) auto

lemma child_skeleton: "child (skeleton t) s = map_option skeleton (child t s)"
  by (cases t; cases s) (auto simp: skeleton_items_map_of skeleton_elems_nth)

lemma node_at_skeleton: "node_at (skeleton t) p = map_option skeleton (node_at t p)"
  by (induction p arbitrary: t) (auto simp: child_skeleton split: option.splits)

lemma kind_at_skeleton:
  "map_option kind_of (node_at (skeleton t) p) = map_option kind_of (node_at t p)"
  by (simp add: node_at_skeleton option.map_comp comp_def)

lemma same_skeleton_kinds:
  "skeleton a = skeleton b \<Longrightarrow> map_option kind_of (node_at a p) = map_option kind_of (node_at b p)"
  using kind_at_skeleton[of a p] kind_at_skeleton[of b p] by simp

lemma is_container_skeleton [simp]: "is_container (skeleton t) = is_container t"
  by (cases t) auto

lemma paths_leaf_empty: "\<not> is_container v \<Longrightarrow> get_all_key_paths v p = {}"
  by (cases v) auto

lemma key_paths_skeleton:
  shows "get_all_key_paths (skeleton t) parent = get_all_key_paths t parent"
    and "dict_paths (skeleton_items kvs) parent = dict_paths kvs parent"
    and "list_paths (skeleton_elems xs) i parent = list_paths xs i parent"
  by (induction t parent and kvs parent and xs i parent
      rule: get_all_key_paths_dict_paths_list_paths.induct) (auto simp: paths_leaf_empty)

lemma same_skeleton_key_paths:
  "skeleton a = skeleton b \<Longrightarrow> get_all_key_paths a parent = get_all_key_paths b parent"
  using key_paths_skeleton(1)[of a parent] key_paths_skeleton(1)[of b parent] by simp

text \<open>
  Claim C1. For every reference tree R and every legacy tree L, the output of the merge has exactly
  the paths of R: at every path the output has a node exactly when R has one, of the same kind
  (leaf, sequence of the same length, mapping with the same keys in the same order), and the
  key paths that \<open>get_all_key_paths\<close> collects from the output are those it collects from R.
\<close>

theorem merge_preserves_structure:
  assumes "wf_json R"
  shows "(\<forall>p. map_option kind_of (node_at (fst (merge tr R L)) p) = map_option kind_of (node_at R p))
       \<and> get_all_key_paths (fst (merge tr R L)) [] = get_all_key_paths R []"
  using same_skeleton_kinds[OF sync_skeleton(1)[OF assms, of tr L "[]" fresh_stats]]
        same_skeleton_key_paths[OF sync_skeleton(1)[OF assms, of tr L "[]" fresh_stats], of "[]"]
  by (simp add: merge_def)

theorem merge_preserves_structure_witness:
  "wf_json (JDict [(''title'', JStr ''Bonjour''), (''nav'', JDict [(''home'', JStr ''Accueil'')])])
   \<and> (\<forall>p. map_option kind_of (node_at (fst (merge (\<lambda>n s. None)
              (JDict [(''title'', JStr ''Bonjour''), (''nav'', JDict [(''home'', JStr ''Accueil'')])])
              (JList [JStr ''Hello'']))) p)
          = map_option kind_of (node_at
              (JDict [(''title'', JStr ''Bonjour''), (''nav'', JDict [(''home'', JStr ''Accueil'')])]) p))
   \<and> get_all_key_paths (fst (merge (\<lambda>n s. None)
              (JDict [(''title'', JStr ''Bonjour''), (''nav'', JDict [(''home'', JStr ''Accueil'')])])
              (JList [JStr ''Hello'']))) []
       = get_all_key_paths
              (JDict [(''title'', JStr ''Bonjour''), (''nav'', JDict [(''home'', JStr ''Accueil'')])]) []"
proof -
  have wf: "wf_json (JDict [(''title'', JStr ''Bonjour''), (''nav'', JDict [(''home'', JStr ''Accueil'')])])"
    by simp
  from wf merge_preserves_structure [OF wf] show ?thesis by (rule conjI)
qed

lemma sync_leaf_self:
  "fst (sync_structure tr (JStr s) (JStr s) pk st) = JStr s"
  "requests (snd (sync_structure tr (JStr s) (JStr s) pk st)) = requests st"
  "translated (snd (sync_structure tr (JStr s) (JStr s) pk st)) = translated st + blank_leaves (JStr s)"
  by (cases "strip s = []"; simp add: sync_leaf_reuse sync_leaf_translate)+

lemma self_merge_aux:
  shows "wf_json R \<Longrightarrow>
           fst (sync_structure tr R R pk st) = R \<and>
           requests (snd (sync_structure tr R R pk st)) = requests st \<and>
           translated (snd (sync_structure tr R R pk st)) = translated st + blank_leaves R"
    and "wf_items kvs \<Longrightarrow> distinct (map fst kvs) \<Longrightarrow> (\<forall>(k, v) \<in> set kvs. old_child L (Key k) = v) \<Longrightarrow>
           fst (sync_items tr kvs L pk [] st) = kvs \<and>
           requests (snd (sync_items tr kvs L pk [] st)) = requests st \<and>
           translated (snd (sync_items tr kvs L pk [] st)) = translated st + blank_leaves_items kvs"
    and "wf_elems xs \<Longrightarrow> (\<forall>j < length xs. old_child L (Idx (i + j)) = xs ! j) \<Longrightarrow>
           fst (sync_elems tr xs i L pk [] st) = xs \<and>
           requests (snd (sync_elems tr xs i L pk [] st)) = requests st \<and>
           translated (snd (sync_elems tr xs i L pk [] st)) = translated st + blank_leaves_elems xs"
proof (induction R and kvs and xs arbitrary: pk st and L pk st and L pk st i
       rule: wf_json_wf_items_wf_elems.induct)
  case (1 kvs)
  then have d: "distinct (map fst kvs)" and w: "wf_items kvs" by auto
  from d have "\<forall>(k, v) \<in> set kvs. old_child (JDict kvs) (Key k) = v" by auto
  from "1.IH"[OF w d this] show ?case by simp
next
  case (2 xs)
  then have w: "wf_elems xs" by simp
  have "\<forall>j < length xs. old_child (JList xs) (Idx (0 + j)) = xs ! j" by simp
  from "2.IH"[OF w this] show ?case by simp
next
  case (7 s)
  show ?case using sync_leaf_self[of tr s pk st] by simp
next
  case (9 k v rest)
  from "9.prems" have w: "wf_json v" "wf_items rest" "distinct (map fst rest)" "k \<notin> fst ` set rest"
    and o: "old_child L (Key k) = v" "\<forall>(k, v) \<in> set rest. old_child L (Key k) = v" by auto
  from "9.IH"(1)[OF w(1)] "9.IH"(2)[OF w(2,3) o(2)] w o(1)
  show ?case by (simp add: sync_items_proj del: seg_key.simps)
next
  case (11 x rest)
  from "11.prems" have w: "wf_json x" "wf_elems rest" by auto
  from "11.prems"(2) have o: "old_child L (Idx i) = x" by fastforce
  have o2: "\<forall>j < length rest. old_child L (Idx (Suc i + j)) = rest ! j"
  proof (intro allI impI)
    fix j assume "j < length rest"
    with "11.prems"(2) have "old_child L (Idx (i + Suc j)) = (x # rest) ! Suc j" by (metis Suc_less_eq length_Cons)
    then show "old_child L (Idx (Suc i + j)) = rest ! j" by simp
  qed
  from "11.IH"(1)[OF w(1)] "11.IH"(2)[OF w(2) o2] o
  show ?case by (simp add: sync_elems_proj del: seg_key.simps)
qed simp_all

text \<open>
  Claim C4, as amended. For every reference tree R, merging R with itself returns R itself, so every
  string leaf of the output equals the leaf of R at the same path, and the translation provider is
  never invoked. Every string leaf that is empty or whitespace-only is counted in \<open>translated\<close>
  and not in \<open>reused\<close>: \<open>reused\<close> plus the number of such leaves is \<open>total\<close>, so the two counters
  agree exactly when R has no such leaf.
\<close>

theorem self_merge:
  assumes "wf_json R"
  shows "fst (merge tr R R) = R
       \<and> requests (snd (merge tr R R)) = []
       \<and> reused (snd (merge tr R R)) + blank_leaves R = total (snd (merge tr R R))"
  using self_merge_aux(1)[OF assms, of tr "[]" fresh_stats] sync_counters(1)[OF assms, of tr R "[]" fresh_stats]
  by (simp add: merge_def fresh_stats_def)

text \<open>
  Claim C4 as stated fails: for a tree with one empty string leaf the self-merge ends with
  \<open>reused = 0\<close> and \<open>total = 1\<close>.
\<close>

theorem self_merge_counterexample:
  "reused (snd (merge (\<lambda>n s. None) (JDict [(''a'', JStr '''')]) (JDict [(''a'', JStr '''')]))) = 0
   \<and> total (snd (merge (\<lambda>n s. None) (JDict [(''a'', JStr '''')]) (JDict [(''a'', JStr '''')]))) = 1"
  by (simp add: merge_def fresh_stats_def sync_items_proj sync_leaf_translate strip_def)

theorem self_merge_witness:
  "wf_json (JDict [(''a'', JStr ''Bonjour''), (''b'', JList [JStr '' '', JInt 3])])
   \<and> fst (merge (\<lambda>n s. None) (JDict [(''a'', JStr ''Bonjour''), (''b'', JList [JStr '' '', JInt 3])])
                (JDict [(''a'', JStr ''Bonjour''), (''b'', JList [JStr '' '', JInt 3])]))
       = JDict [(''a'', JStr ''Bonjour''), (''b'', JList [JStr '' '', JInt 3])]
   \<and> requests (snd (merge (\<lambda>n s. None) (JDict [(''a'', JStr ''Bonjour''), (''b'', JList [JStr '' '', JInt 3])])
                (JDict [(''a'', JStr ''Bonjour''), (''b'', JList [JStr '' '', JInt 3])]))) = []
   \<and> reused (snd (merge (\<lambda>n s. None) (JDict [(''a'', JStr ''Bonjour''), (''b'', JList [JStr '' '', JInt 3])])
                (JDict [(''a'', JStr ''Bonjour''), (''b'', JList [JStr '' '', JInt 3])])))
       + blank_leaves (JDict [(''a'', JStr ''Bonjour''), (''b'', JList [JStr '' '', JInt 3])])
       = total (snd (merge (\<lambda>n s. None) (JDict [(''a'', JStr ''Bonjour''), (''b'', JList [JStr '' '', JInt 3])])
                (JDict [(''a'', JStr ''Bonjour''), (''b'', JList [JStr '' '', JInt 3])])))"
proof -
  have wf: "wf_json (JDict [(''a'', JStr ''Bonjour''), (''b'', JList [JStr '' '', JInt 3])])"
    by simp
  from wf self_merge [OF wf] show ?thesis by (rule conjI)
qed

lemma small_cases: "(d::nat) < 10 \<Longrightarrow> d = 0 \<or> d = 1 \<or> d = 2 \<or> d = 3 \<or> d = 4 \<or> d = 5 \<or> d = 6 \<or> d = 7 \<or> d = 8 \<or> d = 9"
  by arith

lemma digit_value: "d < 10 \<Longrightarrow> of_char (digit d) - 48 = d"
  by (drule small_cases) (auto simp: digit_def)

lemma undec_dec: "undec (dec n) = n"
proof (induction n rule: dec.induct)
  case (1 n)
  show ?case
  proof (cases "n < 10")
    case True
    then show ?thesis by (subst dec.simps) (simp add: undec_def digit_value)
  next
    case False
    with 1 have "undec (dec (n div 10)) = n div 10" by simp
    with False show ?thesis
      by (subst dec.simps) (simp add: undec_def digit_value)
  qed
qed

lemma dec_inject: "dec a = dec b \<Longrightarrow> a = b"
  by (metis undec_dec)

lemma seg_key_idx_inject: "seg_key (Idx a) = seg_key (Idx b) \<Longrightarrow> a = b"
  by (simp add: dec_inject)

lemma attempts_bound:
  "length (fst (snd (translate_attempts tr n src p m retry a))) \<le> nat (retry - a)"
proof (induction tr n src p m retry a rule: translate_attempts.induct)
  case (1 tr n src p m retry a)
  show ?case
  proof (cases "a < retry")
    case False
    then show ?thesis by (subst translate_attempts.simps) simp
  next
    case True
    show ?thesis
    proof (cases "tr n p")
      case (Some t)
      with True show ?thesis by (subst translate_attempts.simps) simp
    next
      case None
      show ?thesis
      proof (cases "a < retry - 1")
        case False
        with True None show ?thesis by (subst translate_attempts.simps) simp
      next
        case l: True
        from "1.IH"[OF True None l] True None l show ?thesis
          by (subst translate_attempts.simps) (simp add: case_prod_unfold)
      qed
    qed
  qed
qed

lemma attempts_all_fail:
  "a < retry \<Longrightarrow>
   (\<forall>j < length (fst (snd (translate_attempts tr n src p m retry a))). tr (n + j) p = None) \<Longrightarrow>
   fst (translate_attempts tr n src p m retry a) = src \<and>
   snd (snd (translate_attempts tr n src p m retry a)) = [Failed (take 40 src)]"
proof (induction tr n src p m retry a rule: translate_attempts.induct)
  case (1 tr n src p m retry a)
  have nonempty: "0 < length (fst (snd (translate_attempts tr n src p m retry a)))"
    using "1.prems"(1) by (subst translate_attempts.simps) (simp add: case_prod_unfold split: option.splits)
  with "1.prems"(2) have None: "tr n p = None" by force
  show ?case
  proof (cases "a < retry - 1")
    case False
    with "1.prems"(1) None show ?thesis by (subst (1 2) translate_attempts.simps) simp
  next
    case l: True
    have e: "translate_attempts tr n src p m retry a =
       (case translate_attempts tr (n + 1) src p m retry (a + 1) of (r, reqs, msgs) \<Rightarrow> (r, p # reqs, msgs))"
      using "1.prems"(1) None l by (subst translate_attempts.simps) simp
    have "\<forall>j < length (fst (snd (translate_attempts tr (n + 1) src p m retry (a + 1)))). tr (n + 1 + j) p = None"
    proof (intro allI impI)
      fix j assume "j < length (fst (snd (translate_attempts tr (n + 1) src p m retry (a + 1))))"
      then have "Suc j < length (fst (snd (translate_attempts tr n src p m retry a)))"
        by (simp add: e case_prod_unfold)
      with "1.prems"(2) have "tr (n + Suc j) p = None" by blast
      then show "tr (n + 1 + j) p = None" by simp
    qed
    from "1.IH"[OF "1.prems"(1) None l _ this] l show ?thesis
      by (simp add: e case_prod_unfold)
  qed
qed

lemma attempts_requests:
  "set (fst (snd (translate_attempts tr n src p m retry a))) \<subseteq> {p}"
proof (induction tr n src p m retry a rule: translate_attempts.induct)
  case (1 tr n src p m retry a)
  show ?case
  proof (cases "a < retry \<and> tr n p = None \<and> a < retry - 1")
    case True
    with "1.IH" show ?thesis by (subst translate_attempts.simps) (auto simp: case_prod_unfold)
  next
    case False
    then show ?thesis by (subst translate_attempts.simps) (auto split: option.splits)
  qed
qed

lemma emitted_append: "requests st' = requests st @ new \<Longrightarrow> emitted st st' = new"
  by (simp add: emitted_def)

lemma tagged_append [simp]: "tagged t (a @ b) = tagged t a @ tagged t b"
  by (simp add: tagged_def)

lemma tagged_none: "(\<forall>e \<in> set log. fst e \<noteq> t) \<Longrightarrow> tagged t log = []"
  by (simp add: tagged_def)

lemma progress_printed: "\<exists>out. printed (progress st) = printed st @ out"
  by (simp add: progress_def)

lemma sync_leaf_grow:
  "\<exists>new out. requests (snd (sync_structure tr (JStr s) l pk st)) = requests st @ new
      \<and> printed (snd (sync_structure tr (JStr s) l pk st)) = printed st @ out
      \<and> (\<forall>e \<in> set new. fst e = pk)"
proof (cases "nonblank_str l")
  case True
  then show ?thesis by (simp add: sync_leaf_reuse)
next
  case False
  obtain out where "printed (progress (st\<lparr>total := total st + 1\<rparr>)) = printed st @ out"
    using progress_printed[of "st\<lparr>total := total st + 1\<rparr>"] by auto
  with False show ?thesis
    by (auto simp: sync_leaf_translate case_prod_unfold)
qed

lemma sync_grow:
  shows "wf_json R \<Longrightarrow>
           \<exists>new out. requests (snd (sync_structure tr R L pk st)) = requests st @ new
             \<and> printed (snd (sync_structure tr R L pk st)) = printed st @ out
             \<and> (\<forall>e \<in> set new. prefix pk (fst e))"
    and "wf_items kvs \<Longrightarrow> distinct (map fst kvs) \<Longrightarrow>
           \<exists>new out. requests (snd (sync_items tr kvs L pk [] st)) = requests st @ new
             \<and> printed (snd (sync_items tr kvs L pk [] st)) = printed st @ out
             \<and> (\<forall>e \<in> set new. \<exists>k \<in> fst ` set kvs. prefix (pk @ [k]) (fst e))"
    and "wf_elems xs \<Longrightarrow>
           \<exists>new out. requests (snd (sync_elems tr xs i L pk [] st)) = requests st @ new
             \<and> printed (snd (sync_elems tr xs i L pk [] st)) = printed st @ out
             \<and> (\<forall>e \<in> set new. \<exists>j < length xs. prefix (pk @ [seg_key (Idx (i + j))]) (fst e))"
proof (induction R and kvs and xs arbitrary: L pk st and L pk st and L pk st i
       rule: wf_json_wf_items_wf_elems.induct)
  case (1 kvs)
  then have "wf_items kvs" "distinct (map fst kvs)" by auto
  from "1.IH"[OF this, of L pk st] obtain new out where
    h: "requests (snd (sync_items tr kvs L pk [] st)) = requests st @ new"
       "printed (snd (sync_items tr kvs L pk [] st)) = printed st @ out"
       "\<forall>e \<in> set new. \<exists>k \<in> fst ` set kvs. prefix (pk @ [k]) (fst e)" by blast
  from h(3) have "\<forall>e \<in> set new. prefix pk (fst e)" by (meson append_prefixD)
  with h(1,2) show ?case by simp
next
  case (2 xs)
  then have "wf_elems xs" by auto
  from "2.IH"[OF this, of 0 L pk st] obtain new out where
    h: "requests (snd (sync_elems tr xs 0 L pk [] st)) = requests st @ new"
       "printed (snd (sync_elems tr xs 0 L pk [] st)) = printed st @ out"
       "\<forall>e \<in> set new. \<exists>j < length xs. prefix (pk @ [seg_key (Idx (0 + j))]) (fst e)" by blast
  from h(3) have "\<forall>e \<in> set new. prefix pk (fst e)" by (meson append_prefixD)
  with h(1,2) show ?case by simp
next
  case (7 s)
  from sync_leaf_grow[of tr s L pk st] show ?case by fastforce
next
  case (9 k v rest)
  from "9.prems" have w: "wf_json v" "wf_items rest" "distinct (map fst rest)" "k \<notin> fst ` set rest" by auto
  let ?a = "sync_structure tr v (old_child L (Key k)) (pk @ [seg_key (Key k)]) st"
  from "9.IH"(1)[OF w(1), of "old_child L (Key k)" "pk @ [seg_key (Key k)]" st] obtain new1 out1 where
    h1: "requests (snd ?a) = requests st @ new1" "printed (snd ?a) = printed st @ out1"
        "\<forall>e \<in> set new1. prefix (pk @ [seg_key (Key k)]) (fst e)" by blast
  from "9.IH"(2)[OF w(2,3), of L pk "snd ?a"] obtain new2 out2 where
    h2: "requests (snd (sync_items tr rest L pk [] (snd ?a))) = requests (snd ?a) @ new2"
        "printed (snd (sync_items tr rest L pk [] (snd ?a))) = printed (snd ?a) @ out2"
        "\<forall>e \<in> set new2. \<exists>k \<in> fst ` set rest. prefix (pk @ [k]) (fst e)" by blast
  have "\<forall>e \<in> set (new1 @ new2). \<exists>k' \<in> fst ` set ((k, v) # rest). prefix (pk @ [k']) (fst e)"
    using h1(3) h2(3) by auto
  with h1(1,2) h2(1,2) w show ?case
    by (intro exI[of _ "new1 @ new2"] exI[of _ "out1 @ out2"]) (simp add: sync_items_proj del: seg_key.simps)
next
  case (11 x rest)
  from "11.prems" have w: "wf_json x" "wf_elems rest" by auto
  let ?a = "sync_structure tr x (old_child L (Idx i)) (pk @ [seg_key (Idx i)]) st"
  from "11.IH"(1)[OF w(1), of "old_child L (Idx i)" "pk @ [seg_key (Idx i)]" st] obtain new1 out1 where
    h1: "requests (snd ?a) = requests st @ new1" "printed (snd ?a) = printed st @ out1"
        "\<forall>e \<in> set new1. prefix (pk @ [seg_key (Idx i)]) (fst e)" by blast
  from "11.IH"(2)[OF w(2), of "Suc i" L pk "snd ?a"] obtain new2 out2 where
    h2: "requests (snd (sync_elems tr rest (Suc i) L pk [] (snd ?a))) = requests (snd ?a) @ new2"
        "printed (snd (sync_elems tr rest (Suc i) L pk [] (snd ?a))) = printed (snd ?a) @ out2"
        "\<forall>e \<in> set new2. \<exists>j < length rest. prefix (pk @ [seg_key (Idx (Suc i + j))]) (fst e)" by blast
  have "\<forall>e \<in> set (new1 @ new2). \<exists>j < length (x # rest). prefix (pk @ [seg_key (Idx (i + j))]) (fst e)"
  proof
    fix e assume "e \<in> set (new1 @ new2)"
    then consider "e \<in> set new1" | "e \<in> set new2" by auto
    then show "\<exists>j < length (x # rest). prefix (pk @ [seg_key (Idx (i + j))]) (fst e)"
    proof cases
      case 1
      with h1(3) show ?thesis by (intro exI[of _ 0]) simp
    next
      case 2
      with h2(3) obtain j where "j < length rest" "prefix (pk @ [seg_key (Idx (Suc i + j))]) (fst e)" by blast
      then show ?thesis by (intro exI[of _ "Suc j"]) simp
    qed
  qed
  with h1(1,2) h2(1,2) show ?case
    by (intro exI[of _ "new1 @ new2"] exI[of _ "out1 @ out2"]) (simp add: sync_elems_proj del: seg_key.simps)
qed simp_all

lemma prefix_snoc_same: "prefix (pk @ [a]) t \<Longrightarrow> prefix (pk @ [b]) t \<Longrightarrow> a = b"
  by (auto simp: prefix_def)

lemma sync_items_sub:
  assumes "wf_items kvs" "distinct (map fst kvs)" "(k, v) \<in> set kvs" "prefix (pk @ [k]) t"
  shows "\<exists>st1.
      map_of (fst (sync_items tr kvs L pk [] st)) k
        = Some (fst (sync_structure tr v (old_child L (Key k)) (pk @ [seg_key (Key k)]) st1))
    \<and> prefix (requests (snd (sync_structure tr v (old_child L (Key k)) (pk @ [seg_key (Key k)]) st1)))
             (requests (snd (sync_items tr kvs L pk [] st)))
    \<and> prefix (printed (snd (sync_structure tr v (old_child L (Key k)) (pk @ [seg_key (Key k)]) st1)))
             (printed (snd (sync_items tr kvs L pk [] st)))
    \<and> tagged t (emitted st (snd (sync_items tr kvs L pk [] st)))
        = tagged t (emitted st1 (snd (sync_structure tr v (old_child L (Key k)) (pk @ [seg_key (Key k)]) st1)))"
  using assms
proof (induction kvs arbitrary: st)
  case Nil
  then show ?case by simp
next
  case (Cons kv rest)
  obtain k0 v0 where kv: "kv = (k0, v0)" by (cases kv)
  from Cons.prems kv have w: "wf_json v0" "wf_items rest" "distinct (map fst rest)" "k0 \<notin> fst ` set rest"
    by auto
  let ?a = "sync_structure tr v0 (old_child L (Key k0)) (pk @ [seg_key (Key k0)]) st"
  let ?b = "sync_items tr rest L pk [] (snd ?a)"
  have fin: "fst (sync_items tr (kv # rest) L pk [] st) = (k0, fst ?a) # fst ?b"
            "snd (sync_items tr (kv # rest) L pk [] st) = snd ?b"
    using w kv by (simp_all add: sync_items_proj del: seg_key.simps)
  from sync_grow(1)[OF w(1), of tr "old_child L (Key k0)" "pk @ [seg_key (Key k0)]" st] obtain new1 out1 where
    h1: "requests (snd ?a) = requests st @ new1" "printed (snd ?a) = printed st @ out1"
        "\<forall>e \<in> set new1. prefix (pk @ [seg_key (Key k0)]) (fst e)" by blast
  from sync_grow(2)[OF w(2,3), of tr L pk "snd ?a"] obtain new2 out2 where
    h2: "requests (snd ?b) = requests (snd ?a) @ new2" "printed (snd ?b) = printed (snd ?a) @ out2"
        "\<forall>e \<in> set new2. \<exists>k' \<in> fst ` set rest. prefix (pk @ [k']) (fst e)" by blast
  have em: "emitted st (snd ?b) = new1 @ new2" "emitted st (snd ?a) = new1" "emitted (snd ?a) (snd ?b) = new2"
    using h1(1) h2(1) by (simp_all add: emitted_append)
  show ?case
  proof (cases "k = k0")
    case True
    with Cons.prems(3) kv w(4) have v: "v = v0" by (auto simp: image_iff)
    have "\<forall>e \<in> set new2. fst e \<noteq> t"
    proof
      fix e assume "e \<in> set new2"
      with h2(3) obtain k' where k': "k' \<in> fst ` set rest" "prefix (pk @ [k']) (fst e)" by blast
      show "fst e \<noteq> t"
      proof
        assume "fst e = t"
        with k'(2) Cons.prems(4) have "k' = k" by (auto dest: prefix_snoc_same)
        with k'(1) True w(4) show False by simp
      qed
    qed
    then have "tagged t new2 = []" by (rule tagged_none)
    with True v h2(1,2) em show ?thesis
      by (intro exI[of _ st]) (simp add: fin del: seg_key.simps)
  next
    case False
    with Cons.prems(3) kv have m: "(k, v) \<in> set rest" by auto
    from Cons.IH[OF w(2,3) m Cons.prems(4), of "snd ?a"] obtain st1 where
      ih: "map_of (fst ?b) k = Some (fst (sync_structure tr v (old_child L (Key k)) (pk @ [seg_key (Key k)]) st1))"
          "prefix (requests (snd (sync_structure tr v (old_child L (Key k)) (pk @ [seg_key (Key k)]) st1))) (requests (snd ?b))"
          "prefix (printed (snd (sync_structure tr v (old_child L (Key k)) (pk @ [seg_key (Key k)]) st1))) (printed (snd ?b))"
          "tagged t (emitted (snd ?a) (snd ?b))
             = tagged t (emitted st1 (snd (sync_structure tr v (old_child L (Key k)) (pk @ [seg_key (Key k)]) st1)))"
      by blast
    have "\<forall>e \<in> set new1. fst e \<noteq> t"
    proof
      fix e assume "e \<in> set new1"
      with h1(3) have p: "prefix (pk @ [k0]) (fst e)" by simp
      show "fst e \<noteq> t"
      proof
        assume "fst e = t"
        with p Cons.prems(4) have "k0 = k" by (auto dest: prefix_snoc_same)
        with False show False by simp
      qed
    qed
    then have "tagged t new1 = []" by (rule tagged_none)
    with ih em False show ?thesis
      by (intro exI[of _ st1]) (simp add: fin del: seg_key.simps)
  qed
qed

lemma sync_elems_length: "length (fst (sync_elems tr xs i L pk [] st)) = length xs"
  by (induction xs arbitrary: i st) (simp_all add: sync_elems_proj del: seg_key.simps)

lemma sync_elems_sub:
  assumes "wf_elems xs" "j < length xs" "prefix (pk @ [seg_key (Idx (i + j))]) t"
  shows "\<exists>st1.
      length (fst (sync_elems tr xs i L pk [] st)) = length xs
    \<and> fst (sync_elems tr xs i L pk [] st) ! j
        = fst (sync_structure tr (xs ! j) (old_child L (Idx (i + j))) (pk @ [seg_key (Idx (i + j))]) st1)
    \<and> prefix (requests (snd (sync_structure tr (xs ! j) (old_child L (Idx (i + j))) (pk @ [seg_key (Idx (i + j))]) st1)))
             (requests (snd (sync_elems tr xs i L pk [] st)))
    \<and> prefix (printed (snd (sync_structure tr (xs ! j) (old_child L (Idx (i + j))) (pk @ [seg_key (Idx (i + j))]) st1)))
             (printed (snd (sync_elems tr xs i L pk [] st)))
    \<and> tagged t (emitted st (snd (sync_elems tr xs i L pk [] st)))
        = tagged t (emitted st1 (snd (sync_structure tr (xs ! j) (old_child L (Idx (i + j))) (pk @ [seg_key (Idx (i + j))]) st1)))"
  using assms
proof (induction xs arbitrary: st i j)
  case Nil
  then show ?case by simp
next
  case (Cons x rest)
  from Cons.prems have w: "wf_json x" "wf_elems rest" by auto
  let ?a = "sync_structure tr x (old_child L (Idx i)) (pk @ [seg_key (Idx i)]) st"
  let ?b = "sync_elems tr rest (Suc i) L pk [] (snd ?a)"
  have fin: "fst (sync_elems tr (x # rest) i L pk [] st) = fst ?a # fst ?b"
            "snd (sync_elems tr (x # rest) i L pk [] st) = snd ?b"
    by (simp_all add: sync_elems_proj del: seg_key.simps)
  from sync_grow(1)[OF w(1), of tr "old_child L (Idx i)" "pk @ [seg_key (Idx i)]" st] obtain new1 out1 where
    h1: "requests (snd ?a) = requests st @ new1" "printed (snd ?a) = printed st @ out1"
        "\<forall>e \<in> set new1. prefix (pk @ [seg_key (Idx i)]) (fst e)" by blast
  from sync_grow(3)[OF w(2), of tr "Suc i" L pk "snd ?a"] obtain new2 out2 where
    h2: "requests (snd ?b) = requests (snd ?a) @ new2" "printed (snd ?b) = printed (snd ?a) @ out2"
        "\<forall>e \<in> set new2. \<exists>j' < length rest. prefix (pk @ [seg_key (Idx (Suc i + j'))]) (fst e)" by blast
  have em: "emitted st (snd ?b) = new1 @ new2" "emitted st (snd ?a) = new1" "emitted (snd ?a) (snd ?b) = new2"
    using h1(1) h2(1) by (simp_all add: emitted_append)
  have len: "length (fst ?b) = length rest"
    by (rule sync_elems_length)
  show ?case
  proof (cases j)
    case 0
    have "\<forall>e \<in> set new2. fst e \<noteq> t"
    proof
      fix e assume "e \<in> set new2"
      with h2(3) obtain j' where j': "prefix (pk @ [seg_key (Idx (Suc i + j'))]) (fst e)" by blast
      show "fst e \<noteq> t"
      proof
        assume "fst e = t"
        with j' Cons.prems(3) 0 have "seg_key (Idx (Suc i + j')) = seg_key (Idx i)"
          by (auto dest: prefix_snoc_same simp del: seg_key.simps)
        then have "Suc i + j' = i" by (rule seg_key_idx_inject)
        then show False by simp
      qed
    qed
    then have "tagged t new2 = []" by (rule tagged_none)
    with 0 h2(1,2) em len show ?thesis
      by (intro exI[of _ st]) (simp add: fin del: seg_key.simps)
  next
    case (Suc j')
    with Cons.prems have j': "j' < length rest" "prefix (pk @ [seg_key (Idx (Suc i + j'))]) t" by auto
    from Cons.IH[OF w(2) j', of "snd ?a"] obtain st1 where
      ih: "fst ?b ! j' = fst (sync_structure tr (rest ! j') (old_child L (Idx (Suc i + j'))) (pk @ [seg_key (Idx (Suc i + j'))]) st1)"
          "prefix (requests (snd (sync_structure tr (rest ! j') (old_child L (Idx (Suc i + j'))) (pk @ [seg_key (Idx (Suc i + j'))]) st1))) (requests (snd ?b))"
          "prefix (printed (snd (sync_structure tr (rest ! j') (old_child L (Idx (Suc i + j'))) (pk @ [seg_key (Idx (Suc i + j'))]) st1))) (printed (snd ?b))"
          "tagged t (emitted (snd ?a) (snd ?b))
             = tagged t (emitted st1 (snd (sync_structure tr (rest ! j') (old_child L (Idx (Suc i + j'))) (pk @ [seg_key (Idx (Suc i + j'))]) st1)))"
      by blast
    have "\<forall>e \<in> set new1. fst e \<noteq> t"
    proof
      fix e assume "e \<in> set new1"
      with h1(3) have p: "prefix (pk @ [seg_key (Idx i)]) (fst e)" by simp
      show "fst e \<noteq> t"
      proof
        assume "fst e = t"
        with p j'(2) have "seg_key (Idx i) = seg_key (Idx (Suc i + j'))"
          by (auto dest: prefix_snoc_same simp del: seg_key.simps)
        then have "i = Suc i + j'" by (rule seg_key_idx_inject)
        then show False by simp
      qed
    qed
    then have "tagged t new1 = []" by (rule tagged_none)
    with ih em Suc len show ?thesis
      by (intro exI[of _ st1]) (simp add: fin del: seg_key.simps)
  qed
qed

lemma wf_items_mem: "wf_items kvs \<Longrightarrow> (k, v) \<in> set kvs \<Longrightarrow> wf_json v"
  by (induction kvs) auto

lemma wf_elems_nth: "wf_elems xs \<Longrightarrow> i < length xs \<Longrightarrow> wf_json (xs ! i)"
  by (induction xs arbitrary: i) (auto simp: nth_Cons')

lemma legacy_at_Cons: "legacy_at L (s # q) = legacy_at (old_child L s) q"
  by (simp add: legacy_at_def)

lemma pkeys_Cons: "pk @ pkeys (s # q) = (pk @ [seg_key s]) @ pkeys q"
  by (simp add: pkeys_def)

lemma sync_sub:
  assumes "wf_json R" "node_at R p = Some r"
  shows "\<exists>st1.
      node_at (fst (sync_structure tr R L pk st)) p
        = Some (fst (sync_structure tr r (legacy_at L p) (pk @ pkeys p) st1))
    \<and> prefix (requests (snd (sync_structure tr r (legacy_at L p) (pk @ pkeys p) st1)))
             (requests (snd (sync_structure tr R L pk st)))
    \<and> prefix (printed (snd (sync_structure tr r (legacy_at L p) (pk @ pkeys p) st1)))
             (printed (snd (sync_structure tr R L pk st)))
    \<and> tagged (pk @ pkeys p) (emitted st (snd (sync_structure tr R L pk st)))
        = tagged (pk @ pkeys p) (emitted st1 (snd (sync_structure tr r (legacy_at L p) (pk @ pkeys p) st1)))"
  using assms
proof (induction p arbitrary: R L pk st)
  case Nil
  then show ?case by (intro exI[of _ st]) (simp add: legacy_at_def pkeys_def)
next
  case (Cons s q)
  from Cons.prems(2) obtain c where c: "child R s = Some c" and n: "node_at c q = Some r"
    by (auto split: option.splits)
  let ?t = "pk @ pkeys (s # q)"
  have pt: "prefix (pk @ [seg_key s]) ?t" by (simp add: pkeys_def)
  let ?sub = "\<lambda>st1. sync_structure tr c (old_child L s) (pk @ [seg_key s]) st1"
  have "\<exists>st1. child (fst (sync_structure tr R L pk st)) s = Some (fst (?sub st1))
      \<and> prefix (requests (snd (?sub st1))) (requests (snd (sync_structure tr R L pk st)))
      \<and> prefix (printed (snd (?sub st1))) (printed (snd (sync_structure tr R L pk st)))
      \<and> tagged ?t (emitted st (snd (sync_structure tr R L pk st))) = tagged ?t (emitted st1 (snd (?sub st1)))
      \<and> wf_json c"
  proof (cases R)
    case (JDict kvs)
    with c obtain k where k: "s = Key k" "map_of kvs k = Some c" by (cases s) auto
    from Cons.prems(1) JDict have w: "wf_items kvs" "distinct (map fst kvs)" by auto
    from k(2) have m: "(k, c) \<in> set kvs" by (rule map_of_SomeD)
    from pt k have pt': "prefix (pk @ [k]) ?t" by simp
    from sync_items_sub[OF w m pt', of tr L st] wf_items_mem[OF w(1) m] JDict k(1)
    show ?thesis by (simp del: seg_key.simps, blast?)
  next
    case (JList xs)
    with c obtain i where i: "s = Idx i" "i < length xs" "c = xs ! i"
      by (cases s) (auto split: if_splits)
    from Cons.prems(1) JList have w: "wf_elems xs" by auto
    from pt i have pt': "prefix (pk @ [seg_key (Idx (0 + i))]) ?t" by simp
    from sync_elems_sub[OF w i(2) pt', of tr L st] wf_elems_nth[OF w i(2)] JList i
    show ?thesis by (simp del: seg_key.simps, blast?)
  qed (use c in auto)
  then obtain st1 where
    h: "child (fst (sync_structure tr R L pk st)) s = Some (fst (?sub st1))"
       "prefix (requests (snd (?sub st1))) (requests (snd (sync_structure tr R L pk st)))"
       "prefix (printed (snd (?sub st1))) (printed (snd (sync_structure tr R L pk st)))"
       "tagged ?t (emitted st (snd (sync_structure tr R L pk st))) = tagged ?t (emitted st1 (snd (?sub st1)))"
       "wf_json c" by blast
  let ?r = "\<lambda>st2. sync_structure tr r (legacy_at (old_child L s) q) ((pk @ [seg_key s]) @ pkeys q) st2"
  from Cons.IH[OF h(5) n, of "old_child L s" "pk @ [seg_key s]" st1] obtain st2 where
    ih: "node_at (fst (?sub st1)) q = Some (fst (?r st2))"
        "prefix (requests (snd (?r st2))) (requests (snd (?sub st1)))"
        "prefix (printed (snd (?r st2))) (printed (snd (?sub st1)))"
        "tagged ((pk @ [seg_key s]) @ pkeys q) (emitted st1 (snd (?sub st1)))
           = tagged ((pk @ [seg_key s]) @ pkeys q) (emitted st2 (snd (?r st2)))"
    by blast
  have e1: "legacy_at L (s # q) = legacy_at (old_child L s) q" by (rule legacy_at_Cons)
  have e2: "pk @ pkeys (s # q) = (pk @ [seg_key s]) @ pkeys q" by (rule pkeys_Cons)
  show ?case
    unfolding e1 e2
    using h(1) ih(1) prefix_order.trans[OF ih(2) h(2)] prefix_order.trans[OF ih(3) h(3)]
          h(4)[unfolded e2] ih(4)
    by (intro exI[of _ st2]) (simp del: seg_key.simps append_assoc)
qed

lemma translate_text_blank: "strip s = [] \<Longrightarrow> translate_text tr n (JStr s) retry = (JStr s, [], [])"
  by simp

lemma translate_text_nonblank:
  "strip s \<noteq> [] \<Longrightarrow>
   translate_text tr n (JStr s) retry =
     (JStr (fst (translate_attempts tr n s (fst (protect_placeholders s)) (snd (protect_placeholders s)) retry 0)),
      fst (snd (translate_attempts tr n s (fst (protect_placeholders s)) (snd (protect_placeholders s)) retry 0)),
      snd (snd (translate_attempts tr n s (fst (protect_placeholders s)) (snd (protect_placeholders s)) retry 0)))"
  by (simp add: case_prod_unfold)

declare translate_text.simps(1) [simp del]

lemma translate_text_bound: "length (fst (snd (translate_text tr n (JStr s) 3))) \<le> 3"
proof (cases "strip s = []")
  case True
  then show ?thesis by (simp add: translate_text_blank)
next
  case False
  from attempts_bound[of tr n s "fst (protect_placeholders s)" "snd (protect_placeholders s)" 3 0]
  show ?thesis by (simp add: translate_text_nonblank[OF False])
qed

lemma sync_leaf_translate_parts:
  assumes "\<not> nonblank_str l"
  shows "fst (sync_structure tr (JStr s) l pk st) = fst (translate_text tr (length (requests st)) (JStr s) 3)"
    and "requests (snd (sync_structure tr (JStr s) l pk st))
           = requests st @ map (Pair pk) (fst (snd (translate_text tr (length (requests st)) (JStr s) 3)))"
    and "set (snd (snd (translate_text tr (length (requests st)) (JStr s) 3)))
           \<subseteq> set (printed (snd (sync_structure tr (JStr s) l pk st)))"
    and "translated (snd (sync_structure tr (JStr s) l pk st)) = translated st + 1"
    and "reused (snd (sync_structure tr (JStr s) l pk st)) = reused st"
    and "total (snd (sync_structure tr (JStr s) l pk st)) = total st + 1"
  using assms by (simp_all add: sync_leaf_translate case_prod_unfold)

lemma emitted_fresh [simp]: "emitted fresh_stats st = requests st"
  by (simp add: emitted_def fresh_stats_def)

lemma tagged_same: "tagged t (map (Pair t) xs) = map (Pair t) xs"
  by (induction xs) (auto simp: tagged_def)



text \<open>
  Claim C5. For every string leaf sent to the translate-leaf procedure, at most 3 requests are made
  to the provider for that leaf. If the provider was attempted for the leaf and every request made
  for it failed, the output leaf is the original reference text and a failure message for it is
  among the printed messages. The merge never aborts, whatever the provider does: it returns an
  output and statistics that count every string leaf of R.
\<close>

theorem provider_exhaustion:
  assumes "wf_json R" "node_at R P = Some (JStr s)" "\<not> nonblank_str (legacy_at L P)"
  shows "length (tagged (pkeys P) (requests (snd (merge tr R L)))) \<le> 3
       \<and> (tagged (pkeys P) (requests (snd (merge tr R L))) \<noteq> []
          \<and> (\<forall>j < length (requests (snd (merge tr R L))).
                fst (requests (snd (merge tr R L)) ! j) = pkeys P
                \<longrightarrow> tr j (snd (requests (snd (merge tr R L)) ! j)) = None)
          \<longrightarrow> node_at (fst (merge tr R L)) P = Some (JStr s)
              \<and> Failed (take 40 s) \<in> set (printed (snd (merge tr R L))))
       \<and> total (snd (merge tr R L)) = str_leaves R
       \<and> reused (snd (merge tr R L)) + translated (snd (merge tr R L)) = total (snd (merge tr R L))"
proof -
  let ?fin = "snd (merge tr R L)"
  let ?t = "pkeys P"
  note parts = sync_leaf_translate_parts[OF assms(3), where tr=tr and s=s]
  from sync_sub[OF assms(1,2), of tr L "[]" fresh_stats] obtain st1 where
    h: "node_at (fst (merge tr R L)) P = Some (fst (sync_structure tr (JStr s) (legacy_at L P) ?t st1))"
       "prefix (requests (snd (sync_structure tr (JStr s) (legacy_at L P) ?t st1))) (requests ?fin)"
       "prefix (printed (snd (sync_structure tr (JStr s) (legacy_at L P) ?t st1))) (printed ?fin)"
       "tagged ?t (requests ?fin)
          = tagged ?t (emitted st1 (snd (sync_structure tr (JStr s) (legacy_at L P) ?t st1)))"
    by (auto simp: merge_def)
  let ?n = "length (requests st1)"
  let ?tt = "translate_text tr ?n (JStr s) 3"
  let ?reqs = "fst (snd ?tt)"
  have em: "emitted st1 (snd (sync_structure tr (JStr s) (legacy_at L P) ?t st1)) = map (Pair ?t) ?reqs"
    by (simp add: parts(2) emitted_def)
  have tg: "tagged ?t (requests ?fin) = map (Pair ?t) ?reqs"
    by (simp add: h(4) em tagged_same)
  have bound: "length (tagged ?t (requests ?fin)) \<le> 3"
    using translate_text_bound[of tr ?n s] by (simp add: tg)
  have exh: "node_at (fst (merge tr R L)) P = Some (JStr s) \<and> Failed (take 40 s) \<in> set (printed ?fin)"
    if ne: "tagged ?t (requests ?fin) \<noteq> []"
    and fail: "\<forall>j < length (requests ?fin). fst (requests ?fin ! j) = ?t \<longrightarrow> tr j (snd (requests ?fin ! j)) = None"
  proof -
    from ne tg have rne: "?reqs \<noteq> []" by simp
    then have nb: "strip s \<noteq> []" by (auto simp: translate_text_blank)
    let ?q = "fst (protect_placeholders s)"
    let ?A = "translate_attempts tr ?n s ?q (snd (protect_placeholders s)) 3 0"
    have tt: "?tt = (JStr (fst ?A), fst (snd ?A), snd (snd ?A))"
      by (rule translate_text_nonblank[OF nb])
    have reqs: "?reqs = fst (snd ?A)" by (simp add: tt)
    have allfail: "\<forall>j < length (fst (snd ?A)). tr (?n + j) ?q = None"
    proof (intro allI impI)
      fix j assume j: "j < length (fst (snd ?A))"
      have q: "fst (snd ?A) ! j = ?q"
        using attempts_requests[of tr ?n s ?q "snd (protect_placeholders s)" 3 0] j
        by (meson nth_mem singletonD subsetD)
      let ?sub = "requests (snd (sync_structure tr (JStr s) (legacy_at L P) ?t st1))"
      have sub: "?sub = requests st1 @ map (Pair ?t) (fst (snd ?A))"
        by (simp add: parts(2) reqs)
      from j have lt: "?n + j < length ?sub" by (simp add: sub)
      have at: "?sub ! (?n + j) = (?t, ?q)" using j q by (simp add: sub nth_append)
      from h(2) obtain post where fin: "requests ?fin = ?sub @ post" by (auto simp: prefix_def)
      from lt have "?n + j < length (requests ?fin)" by (simp add: fin)
      moreover from lt at have "requests ?fin ! (?n + j) = (?t, ?q)" by (simp add: fin nth_append)
      ultimately show "tr (?n + j) ?q = None" using fail by fastforce
    qed
    from attempts_all_fail[OF _ allfail] have res: "fst ?A = s" "snd (snd ?A) = [Failed (take 40 s)]"
      by simp_all
    have "fst (sync_structure tr (JStr s) (legacy_at L P) ?t st1) = JStr s"
      by (simp add: parts(1) tt res)
    moreover have "Failed (take 40 s) \<in> set (printed (snd (sync_structure tr (JStr s) (legacy_at L P) ?t st1)))"
      using parts(3)[where pk="?t" and st=st1] by (simp add: tt res)
    with h(3) have "Failed (take 40 s) \<in> set (printed ?fin)" by (auto simp: prefix_def)
    ultimately show ?thesis using h(1) by simp
  qed
  from sync_counters(1)[OF assms(1), of tr L "[]" fresh_stats]
  have c: "total ?fin = str_leaves R" "reused ?fin + translated ?fin = total ?fin"
    by (simp_all add: merge_def fresh_stats_def)
  from bound exh c show ?thesis by blast
qed

lemma eval_nonblank_example: "strip ''Hello'' \<noteq> []" "strip ''Bonjour'' \<noteq> []" "strip '' '' = []"
  by (simp_all add: strip_def is_space_def)



lemma exhaustion_example:
  "requests (snd (merge (\<lambda>n q. None) (JDict [(''a'', JStr ''Bonjour'')]) JNull))
     = [([''a''], ''Bonjour''), ([''a''], ''Bonjour''), ([''a''], ''Bonjour'')]"
  by (simp add: merge_def fresh_stats_def sync_items_proj sync_leaf_translate translate_text_nonblank
        translate_attempts.simps protect_placeholders_def strip_def is_space_def)

theorem provider_exhaustion_witness:
  "wf_json (JDict [(''a'', JStr ''Bonjour'')])
   \<and> node_at (JDict [(''a'', JStr ''Bonjour'')]) [Key ''a''] = Some (JStr ''Bonjour'')
   \<and> \<not> nonblank_str (legacy_at JNull [Key ''a''])
   \<and> tagged (pkeys [Key ''a'']) (requests (snd (merge (\<lambda>n q. None) (JDict [(''a'', JStr ''Bonjour'')]) JNull))) \<noteq> []
   \<and> length (tagged (pkeys [Key ''a'']) (requests (snd (merge (\<lambda>n q. None) (JDict [(''a'', JStr ''Bonjour'')]) JNull)))) \<le> 3
   \<and> node_at (fst (merge (\<lambda>n q. None) (JDict [(''a'', JStr ''Bonjour'')]) JNull)) [Key ''a''] = Some (JStr ''Bonjour'')
   \<and> Failed (take 40 ''Bonjour'') \<in> set (printed (snd (merge (\<lambda>n q. None) (JDict [(''a'', JStr ''Bonjour'')]) JNull)))
   \<and> total (snd (merge (\<lambda>n q. None) (JDict [(''a'', JStr ''Bonjour'')]) JNull)) = str_leaves (JDict [(''a'', JStr ''Bonjour'')])"
proof -
  have h1: "wf_json (JDict [(''a'', JStr ''Bonjour'')])" by simp
  have h2: "node_at (JDict [(''a'', JStr ''Bonjour'')]) [Key ''a''] = Some (JStr ''Bonjour'')" by simp
  have h3: "\<not> nonblank_str (legacy_at JNull [Key ''a''])" by (simp add: legacy_at_def)
  have h4: "tagged (pkeys [Key ''a'']) (requests (snd (merge (\<lambda>n q. None) (JDict [(''a'', JStr ''Bonjour'')]) JNull))) \<noteq> []"
    by (simp add: exhaustion_example tagged_def pkeys_def)
  from provider_exhaustion [OF h1 h2 h3, where tr = "\<lambda>n q. None"] h1 h2 h3 h4
  show ?thesis by simp
qed

section \<open>Properties of the placeholder guard\<close>




declare replace.simps [simp del]













lemma mk_nonempty [simp]: "mk k \<noteq> []"
  by (simp add: mk_def)























lemma findall_example:
  "findall_placeholders ''Welcome {name} to {place}'' = [''{name}'', ''{place}'']"
  "findall_placeholders ''{{a} {} {}} {b'' = [''{{a}'']"
  by simp_all

lemma eleven_tokens_example:
  "restore_placeholders (fst (protect_placeholders ''{a}{b}{c}{d}{e}{f}{g}{h}{i}{j}{k}''))
                        (snd (protect_placeholders ''{a}{b}{c}{d}{e}{f}{g}{h}{i}{j}{k}''))
     = ''{a}{b}{c}{d}{e}{f}{g}{h}{i}{j}{b}0''"
  by (simp add: protect_placeholders_def replace.simps dec.simps digit_def)

end
